theory Spec2Isabelle
  imports Main
begin

section \<open>Strings\<close>

text \<open>
  The loader is Python; its strings are sequences of code points. A \<^typ>\<open>string\<close> here
  is a list of code points below 256 (Latin-1), and the character classes below are
  Python's on that range: \<^verbatim>\<open>str.isspace\<close> (which is also what \<^verbatim>\<open>\s\<close> matches in a
  \<^verbatim>\<open>str\<close> pattern), \<^verbatim>\<open>str.isdigit\<close>, \<^verbatim>\<open>str.lower\<close>.
\<close>

definition is_space :: "char \<Rightarrow> bool" where
  "is_space c = (let n = (of_char c :: nat) in
     (9 \<le> n \<and> n \<le> 13) \<or> (28 \<le> n \<and> n \<le> 32) \<or> n = 133 \<or> n = 160)"

definition is_decimal :: "char \<Rightarrow> bool" where
  "is_decimal c = (let n = (of_char c :: nat) in 48 \<le> n \<and> n \<le> 57)"

text \<open>\<^verbatim>\<open>str.isdigit\<close> also accepts the superscript digits U+00B2, U+00B3 and U+00B9.\<close>

definition is_digit :: "char \<Rightarrow> bool" where
  "is_digit c = (let n = (of_char c :: nat) in
     (48 \<le> n \<and> n \<le> 57) \<or> n = 178 \<or> n = 179 \<or> n = 185)"

text \<open>The class \<^verbatim>\<open>[0-9A-Za-z]\<close> of the regular expression in \<^verbatim>\<open>snake\<close>.\<close>

definition is_alnum :: "char \<Rightarrow> bool" where
  "is_alnum c = (let n = (of_char c :: nat) in
     (48 \<le> n \<and> n \<le> 57) \<or> (65 \<le> n \<and> n \<le> 90) \<or> (97 \<le> n \<and> n \<le> 122))"

definition lower_char :: "char \<Rightarrow> char" where
  "lower_char c = (let n = (of_char c :: nat) in
     if (65 \<le> n \<and> n \<le> 90) \<or> (192 \<le> n \<and> n \<le> 222 \<and> n \<noteq> 215)
     then char_of (n + 32) else c)"

definition lower :: "string \<Rightarrow> string" where
  "lower s = map lower_char s"

text \<open>\<^verbatim>\<open>s.strip()\<close> and \<^verbatim>\<open>s.strip("_")\<close>: drop the characters of a class at both ends.\<close>

definition strip_chars :: "(char \<Rightarrow> bool) \<Rightarrow> string \<Rightarrow> string" where
  "strip_chars P s = rev (dropWhile P (rev (dropWhile P s)))"

definition strip :: "string \<Rightarrow> string" where
  "strip s = strip_chars is_space s"

text \<open>
  \<^verbatim>\<open>re.sub(r"C+", rep, s)\<close> for a character class \<open>C\<close>: every maximal run of characters
  of the class becomes the one character \<open>rep\<close>.
\<close>

function sub_runs :: "(char \<Rightarrow> bool) \<Rightarrow> char \<Rightarrow> string \<Rightarrow> string" where
  "sub_runs P rep [] = []"
| "sub_runs P rep (c # cs) =
     (if P c then rep # sub_runs P rep (dropWhile P cs) else c # sub_runs P rep cs)"
  by pat_completeness auto
termination
  by (relation "measure (\<lambda>(P, rep, s). length s)")
     (auto simp: length_dropWhile_le less_Suc_eq_le)

text \<open>\<^verbatim>\<open>s.replace(c, "")\<close> for a one-character \<open>c\<close>.\<close>

definition remove_char :: "char \<Rightarrow> string \<Rightarrow> string" where
  "remove_char c s = filter (\<lambda>d. d \<noteq> c) s"

section \<open>Helpers of the loader\<close>

text \<open>\<^verbatim>\<open>norm_col(c) = re.sub(r"\s+", " ", c.strip())\<close>\<close>

definition norm_col :: "string \<Rightarrow> string" where
  "norm_col c = sub_runs is_space (CHR '' '') (strip c)"

text \<open>
  A cell of the sheet. The sheet is read with \<^verbatim>\<open>dtype=str\<close>, so a cell is a string or
  missing (\<^verbatim>\<open>None\<close> or NaN, for which \<^verbatim>\<open>pd.isna\<close> holds): \<open>None\<close> is the missing
  cell, \<open>Some s\<close> a value whose \<^verbatim>\<open>str()\<close> is \<open>s\<close>.
\<close>

type_synonym cell = "string option"

definition norm_str :: "cell \<Rightarrow> string option" where
  "norm_str x = (case x of
      None \<Rightarrow> None
    | Some v \<Rightarrow> (let s = strip v in if s \<noteq> [] then Some s else None))"

definition snake :: "string \<Rightarrow> string" where
  "snake s0 =
    (let s = remove_char (CHR '')'') (remove_char (CHR ''('') (strip s0));
         s = strip_chars (\<lambda>c. c = CHR ''_'') (sub_runs (\<lambda>c. \<not> is_alnum c) (CHR ''_'') s)
     in lower s)"


section \<open>Date parsing\<close>

datatype py_error = ValueError

text \<open>
  \<^verbatim>\<open>int(s)\<close> on a string for which \<^verbatim>\<open>isdigit\<close> holds: the value of the decimal digits;
  a superscript digit is no decimal digit and \<^verbatim>\<open>int\<close> raises \<^verbatim>\<open>ValueError\<close> on it.
\<close>

definition digit_val :: "char \<Rightarrow> nat" where
  "digit_val c = of_char c - 48"

definition py_int :: "string \<Rightarrow> py_error + nat" where
  "py_int s = (if s \<noteq> [] \<and> list_all is_decimal s
     then Inr (foldl (\<lambda>a c. 10 * a + digit_val c) 0 s) else Inl ValueError)"

definition leap_year :: "nat \<Rightarrow> bool" where
  "leap_year y = (y mod 4 = 0 \<and> (y mod 100 \<noteq> 0 \<or> y mod 400 = 0))"

definition days_in_month :: "nat \<Rightarrow> nat \<Rightarrow> nat" where
  "days_in_month y m =
    (if m = 2 then (if leap_year y then 29 else 28)
     else if m = 4 \<or> m = 6 \<or> m = 9 \<or> m = 11 then 30 else 31)"

definition digit_char :: "nat \<Rightarrow> char" where
  "digit_char n = char_of (48 + n mod 10)"

definition pad2 :: "nat \<Rightarrow> string" where
  "pad2 n = [digit_char (n div 10), digit_char n]"

definition pad4 :: "nat \<Rightarrow> string" where
  "pad4 n = [digit_char (n div 1000), digit_char (n div 100), digit_char (n div 10), digit_char n]"

text \<open>
  \<^verbatim>\<open>date(year, mm, dd).isoformat()\<close> inside \<^verbatim>\<open>try ... except Exception: return None\<close>:
  \<^verbatim>\<open>date\<close> raises for a year outside 1..9999, a month outside 1..12 or a day outside the
  month, and the result is then \<^verbatim>\<open>None\<close>.
\<close>

definition date_iso :: "nat \<Rightarrow> nat \<Rightarrow> nat \<Rightarrow> string option" where
  "date_iso y m d =
    (if 1 \<le> y \<and> y \<le> 9999 \<and> 1 \<le> m \<and> m \<le> 12 \<and> 1 \<le> d \<and> d \<le> days_in_month y m
     then Some (pad4 y @ ''-'' @ pad2 m @ ''-'' @ pad2 d) else None)"

text \<open>The separators removed before the DDMMYY attempt: \<^verbatim>\<open>/\<close>, \<^verbatim>\<open>-\<close>, \<^verbatim>\<open>.\<close> and the space.\<close>

definition strip_seps :: "string \<Rightarrow> string" where
  "strip_seps s =
     remove_char (CHR '' '') (remove_char (CHR ''.'') (remove_char (CHR ''-'') (remove_char (CHR ''/'') s)))"

text \<open>
  The DDMMYY attempt of \<^verbatim>\<open>parse_date_flex\<close> on the string without separators. The three
  calls of \<^verbatim>\<open>int\<close> stand outside the \<^verbatim>\<open>try\<close>, so a \<^verbatim>\<open>ValueError\<close> of theirs leaves the
  function.
\<close>

definition ddmmyy :: "string \<Rightarrow> py_error + string option" where
  "ddmmyy s2 =
    (if length s2 = 6 \<and> list_all is_digit s2 then
       (case py_int (take 2 s2) of Inl e \<Rightarrow> Inl e | Inr dd \<Rightarrow>
        (case py_int (take 2 (drop 2 s2)) of Inl e \<Rightarrow> Inl e | Inr mm \<Rightarrow>
         (case py_int (drop 4 s2) of Inl e \<Rightarrow> Inl e | Inr yy \<Rightarrow>
           (let year = (if yy \<le> 69 then 2000 + yy else 1900 + yy)
            in Inr (date_iso year mm dd)))))
     else Inr None)"

text \<open>
  \<^verbatim>\<open>pd.to_datetime(s, dayfirst=..., errors="coerce")\<close> is pandas' parser, not code of the
  loader: it is the parameter \<open>to_datetime\<close>, which for a string and the \<^verbatim>\<open>dayfirst\<close> flag
  gives \<open>Some\<close> of \<^verbatim>\<open>dt.date().isoformat()\<close> when the parse yields a date, and \<open>None\<close> when
  it yields NaT or raises (the loader swallows the exception).
\<close>

type_synonym flex_parser = "string \<Rightarrow> bool \<Rightarrow> string option"

definition parse_date_flex :: "flex_parser \<Rightarrow> cell \<Rightarrow> py_error + string option" where
  "parse_date_flex to_datetime x =
    (case x of
       None \<Rightarrow> Inr None
     | Some v \<Rightarrow>
        (let s = strip v in
         if s = [] then Inr None
         else (case to_datetime s True of
                 Some d \<Rightarrow> Inr (Some d)
               | None \<Rightarrow>
                  (case to_datetime s False of
                     Some d \<Rightarrow> Inr (Some d)
                   | None \<Rightarrow> ddmmyy (strip_seps s)))))"

section \<open>Record builder\<close>

record emp_record =
  empId :: "string option"
  name :: "string option"
  gender :: "string option"
  doj :: "string option"
  designation :: "string option"
  managerName :: "string option"
  leadName :: "string option"
  primarySkill :: "string option"
  secondarySkill :: "string option"
  project :: "string option"
  team :: "string option"
  extra :: "string \<rightharpoonup> string"

record dataframe =
  columns :: "string list"
  data :: "cell list list"

definition col_map_variants :: "(string \<times> string list) list" where
  "col_map_variants =
    [(''emp_id'', [''Emp Id'', ''Emp Id '', ''Employee Id'', ''EmpID'']),
     (''name'', [''Emp Name'', ''Employee Name'', ''Name'']),
     (''gender'', [''Gender'']),
     (''doj'', [''Date of Joining (DDMMYY)'', ''Date of Joining'', ''DOJ'']),
     (''designation'', [''Designation'', ''Title'', ''Role'']),
     (''manager_name'', [''Reporting Manager'', ''Manager'', ''Reports To'']),
     (''lead_name'', [''Lead Reporting'', ''Lead'', ''Project Lead'']),
     (''primary_skill'', [''Primary Skill'', ''Primary skill'']),
     (''secondary_skill'', [''Secondary Skill'', ''Secondary skill'']),
     (''project'', [''Current Project'', ''Project'']),
     (''team'', [''Team'', ''Department''])]"

text \<open>The inverted header mapping \<^verbatim>\<open>inv_map\<close>: a later assignment to a key replaces an earlier one.\<close>

definition inv_map :: "string \<rightharpoonup> string" where
  "inv_map = fold (\<lambda>(key, variants) m. fold (\<lambda>v m. m(norm_col v \<mapsto> key)) variants m)
           col_map_variants Map.empty"

definition ignore_cols :: "string list" where
  "ignore_cols = [''Sr No'', ''S.No'', ''Sr. No'', ''Serial'', ''Serial No'']"

text \<open>
  \<^verbatim>\<open>passthrough_cols\<close>, as the loader computes it from the normalised headers. The loop
  over the rows below never reads it.
\<close>

definition passthrough_cols :: "string list \<Rightarrow> string set" where
  "passthrough_cols cols =
     {c \<in> set cols - dom inv_map. norm_col c \<notin> set ignore_cols}"

definition rec_init :: emp_record where
  "rec_init = \<lparr>empId = None, name = None, gender = None, doj = None, designation = None,
     managerName = None, leadName = None, primarySkill = None, secondarySkill = None,
     project = None, team = None, extra = Map.empty\<rparr>"

text \<open>\<^verbatim>\<open>vs.lower() if vs else None\<close>\<close>

definition lower_opt :: "string option \<Rightarrow> string option" where
  "lower_opt vs = (case vs of None \<Rightarrow> None | Some s \<Rightarrow> if s \<noteq> [] then Some (lower s) else None)"

text \<open>One pass of the body of \<^verbatim>\<open>for c, v in row.items()\<close>.\<close>

definition cell_step :: "flex_parser \<Rightarrow> string \<times> cell \<Rightarrow> emp_record \<Rightarrow> py_error + emp_record" where
  "cell_step to_datetime cv rec =
    (let c = fst cv; v = snd cv in
     case inv_map (norm_col c) of
       None \<Rightarrow>
         (case norm_str v of
            None \<Rightarrow> Inr rec
          | Some val \<Rightarrow> Inr (rec\<lparr>extra := (extra rec)(snake c \<mapsto> val)\<rparr>))
     | Some key \<Rightarrow>
         if key = ''emp_id'' then Inr (rec\<lparr>empId := norm_str v\<rparr>)
         else if key = ''name'' then Inr (rec\<lparr>name := norm_str v\<rparr>)
         else if key = ''gender'' then Inr (rec\<lparr>gender := norm_str v\<rparr>)
         else if key = ''doj'' then
           (case parse_date_flex to_datetime v of
              Inl e \<Rightarrow> Inl e
            | Inr d \<Rightarrow> Inr (rec\<lparr>doj := d\<rparr>))
         else if key = ''designation'' then Inr (rec\<lparr>designation := norm_str v\<rparr>)
         else if key = ''manager_name'' then Inr (rec\<lparr>managerName := norm_str v\<rparr>)
         else if key = ''lead_name'' then Inr (rec\<lparr>leadName := norm_str v\<rparr>)
         else if key = ''primary_skill'' then Inr (rec\<lparr>primarySkill := lower_opt (norm_str v)\<rparr>)
         else if key = ''secondary_skill'' then Inr (rec\<lparr>secondarySkill := lower_opt (norm_str v)\<rparr>)
         else if key = ''project'' then Inr (rec\<lparr>project := norm_str v\<rparr>)
         else if key = ''team'' then Inr (rec\<lparr>team := norm_str v\<rparr>)
         else Inr rec)"

fun build_row :: "flex_parser \<Rightarrow> (string \<times> cell) list \<Rightarrow> emp_record \<Rightarrow> py_error + emp_record" where
  "build_row to_datetime [] rec = Inr rec"
| "build_row to_datetime (cv # items) rec =
     (case cell_step to_datetime cv rec of
        Inl e \<Rightarrow> Inl e
      | Inr rec' \<Rightarrow> build_row to_datetime items rec')"

text \<open>Python's truth value of a field that is \<^verbatim>\<open>None\<close> or a string.\<close>

definition truthy :: "string option \<Rightarrow> bool" where
  "truthy x = (case x of None \<Rightarrow> False | Some s \<Rightarrow> s \<noteq> [])"

text \<open>
  The loop \<^verbatim>\<open>for _, row in df.iterrows()\<close>; \<^verbatim>\<open>row.items()\<close> pairs the (normalised) headers
  with the cells of the row, in column order.
\<close>

fun build_loop :: "flex_parser \<Rightarrow> string list \<Rightarrow> cell list list \<Rightarrow> emp_record list
    \<Rightarrow> py_error + emp_record list" where
  "build_loop to_datetime cols [] records = Inr records"
| "build_loop to_datetime cols (row # rows) records =
     (case build_row to_datetime (zip cols row) rec_init of
        Inl e \<Rightarrow> Inl e
      | Inr rec \<Rightarrow>
          build_loop to_datetime cols rows
            (if truthy (empId rec) \<and> truthy (name rec) then records @ [rec] else records))"

definition build_records :: "flex_parser \<Rightarrow> dataframe \<Rightarrow> py_error + emp_record list" where
  "build_records to_datetime df =
     build_loop to_datetime (map norm_col (columns df)) (data df) []"


section \<open>The graph store\<close>

text \<open>
  The store is a property graph: nodes carry labels and properties, relationships carry a
  type and properties, and several relationships may join the same two nodes. A node's
  identity is its position in \<open>nodes\<close>, a relationship's its position in \<open>edges\<close>; the
  loader never deletes either. A property that is \<^verbatim>\<open>null\<close> is an absent one, so a
  property map is a partial map and \<^verbatim>\<open>SET e.p = null\<close> removes \<open>p\<close>.

  The setup statements of the loader are best effort: a failure (no privilege to create a
  constraint, say) is printed and ignored, so that the statements that follow run with
  the constraints that happen to be in force. This section and the next give what the
  statements write when no constraint stops them; the checks of the constraints in
  force, and the transactions, follow them.
\<close>

datatype pval = VStr string | VDate string | VInt int

type_synonym props = "string \<rightharpoonup> pval"

record node =
  nlabels :: "string list"
  nprops :: props

record edge =
  esrc :: nat
  edst :: nat
  etype :: string
  eprops :: props

record graph =
  nodes :: "node list"
  edges :: "edge list"

text \<open>The node pattern \<^verbatim>\<open>(:l {k: v})\<close> for a string \<open>v\<close>.\<close>

definition node_matches :: "string \<Rightarrow> string \<Rightarrow> string \<Rightarrow> node \<Rightarrow> bool" where
  "node_matches l k v n = (l \<in> set (nlabels n) \<and> nprops n k = Some (VStr v))"

definition match_nodes :: "string \<Rightarrow> string \<Rightarrow> string \<Rightarrow> graph \<Rightarrow> nat list" where
  "match_nodes l k v g =
     filter (\<lambda>i. node_matches l k v (nodes g ! i)) [0..<length (nodes g)]"

definition upd_node :: "nat \<Rightarrow> (props \<Rightarrow> props) \<Rightarrow> graph \<Rightarrow> graph" where
  "upd_node i f g =
     g\<lparr>nodes := (nodes g)[i := (nodes g ! i)\<lparr>nprops := f (nprops (nodes g ! i))\<rparr>]\<rparr>"

text \<open>
  \<^verbatim>\<open>MERGE (x:l {k: v}) ON CREATE SET ... ON MATCH SET ...\<close> for one incoming row: every
  node that matches is bound (and gets the \<^verbatim>\<open>ON MATCH\<close> update); when none matches, one
  node is created with the label and the property of the pattern (and gets the
  \<^verbatim>\<open>ON CREATE\<close> update). The result is the new graph and the nodes bound.
\<close>

definition merge_node :: "string \<Rightarrow> string \<Rightarrow> string \<Rightarrow> (props \<Rightarrow> props) \<Rightarrow> (props \<Rightarrow> props)
    \<Rightarrow> graph \<Rightarrow> graph \<times> nat list" where
  "merge_node l k v on_create on_match g =
    (let ms = match_nodes l k v g in
     if ms = []
     then (g\<lparr>nodes := nodes g @ [\<lparr>nlabels = [l], nprops = on_create [k \<mapsto> VStr v]\<rparr>]\<rparr>,
           [length (nodes g)])
     else (fold (\<lambda>i. upd_node i on_match) ms g, ms))"

text \<open>The relationship pattern \<^verbatim>\<open>(s)-[:ty {req}]->(d)\<close> between two bound nodes.\<close>

definition edge_matches :: "nat \<Rightarrow> string \<Rightarrow> (string \<times> pval) list \<Rightarrow> nat \<Rightarrow> edge \<Rightarrow> bool" where
  "edge_matches s ty req d e =
     (esrc e = s \<and> edst e = d \<and> etype e = ty \<and> list_all (\<lambda>kv. eprops e (fst kv) = Some (snd kv)) req)"

definition match_edges :: "nat \<Rightarrow> string \<Rightarrow> (string \<times> pval) list \<Rightarrow> nat \<Rightarrow> graph \<Rightarrow> nat list" where
  "match_edges s ty req d g =
     filter (\<lambda>i. edge_matches s ty req d (edges g ! i)) [0..<length (edges g)]"

text \<open>\<^verbatim>\<open>MERGE (s)-[w:ty {req}]->(d)\<close> for one incoming row.\<close>

definition merge_edge :: "nat \<Rightarrow> string \<Rightarrow> (string \<times> pval) list \<Rightarrow> nat \<Rightarrow> graph \<Rightarrow> graph \<times> nat list" where
  "merge_edge s ty req d g =
    (let ms = match_edges s ty req d g in
     if ms = []
     then (g\<lparr>edges := edges g @ [\<lparr>esrc = s, edst = d, etype = ty, eprops = map_of req\<rparr>]\<rparr>,
           [length (edges g)])
     else (g, ms))"

definition upd_edge :: "nat \<Rightarrow> (props \<Rightarrow> props) \<Rightarrow> graph \<Rightarrow> graph" where
  "upd_edge i f g =
     g\<lparr>edges := (edges g)[i := (edges g ! i)\<lparr>eprops := f (eprops (edges g ! i))\<rparr>]\<rparr>"

subsection \<open>Clauses\<close>

text \<open>
  A Cypher statement is a sequence of clauses; a clause takes the graph and the table of
  rows bound so far and gives the graph and the table for the next clause. An updating
  clause works through its table in order, every row on the graph the rows before it
  have left, and extends each row by what it binds.
\<close>

fun clause :: "('a \<Rightarrow> graph \<Rightarrow> graph \<times> 'b list) \<Rightarrow> 'a list \<Rightarrow> graph \<Rightarrow> graph \<times> ('a \<times> 'b) list" where
  "clause f [] g = (g, [])"
| "clause f (a # tbl) g =
     (let (g1, bs) = f a g; (g2, rest) = clause f tbl g1
      in (g2, map (Pair a) bs @ rest))"

text \<open>A reading clause (\<^verbatim>\<open>MATCH\<close>): each row is extended by every match, a row with none is dropped.\<close>

definition bind_rows :: "('a \<Rightarrow> 'b list) \<Rightarrow> 'a list \<Rightarrow> ('a \<times> 'b) list" where
  "bind_rows f tbl = concat (map (\<lambda>a. map (Pair a) (f a)) tbl)"

text \<open>\<^verbatim>\<open>UNWIND $rows AS r WITH r WHERE r.f IS NOT NULL AND r.f <> ""\<close>, the row with the value of \<open>f\<close>.\<close>

definition with_field :: "(emp_record \<Rightarrow> string option) \<Rightarrow> emp_record list \<Rightarrow> (emp_record \<times> string) list" where
  "with_field f rows =
     List.map_filter (\<lambda>r. case f r of None \<Rightarrow> None | Some v \<Rightarrow> if v \<noteq> [] then Some (r, v) else None) rows"

text \<open>\<^verbatim>\<open>MATCH (e:Employee {empId: r.empId})\<close>; a \<^verbatim>\<open>null\<close> matches nothing.\<close>

definition match_emp :: "emp_record \<Rightarrow> graph \<Rightarrow> nat list" where
  "match_emp r g = (case empId r of None \<Rightarrow> [] | Some k \<Rightarrow> match_nodes ''Employee'' ''empId'' k g)"

section \<open>The statements of \<^verbatim>\<open>upsert\<close>\<close>

subsection \<open>Employees\<close>

text \<open>\<^verbatim>\<open>ON CREATE SET e.name = r.name\<close> and \<^verbatim>\<open>ON MATCH SET e.name = coalesce(r.name, e.name)\<close>\<close>

definition create_name :: "emp_record \<Rightarrow> props \<Rightarrow> props" where
  "create_name r p = p(''name'' := map_option VStr (name r))"

definition coalesce_name :: "emp_record \<Rightarrow> props \<Rightarrow> props" where
  "coalesce_name r p = (case name r of None \<Rightarrow> p | Some n \<Rightarrow> p(''name'' \<mapsto> VStr n))"

text \<open>
  \<^verbatim>\<open>SET e.gender = r.gender, e.designation = r.designation,
      e.doj = CASE WHEN r.doj IS NULL THEN e.doj ELSE date(r.doj) END, e += r.extra\<close>,
  the items from left to right.
\<close>

definition emp_set :: "emp_record \<Rightarrow> props \<Rightarrow> props" where
  "emp_set r p =
    (let p1 = p(''gender'' := map_option VStr (gender r));
         p2 = p1(''designation'' := map_option VStr (designation r));
         p3 = p2(''doj'' := (case doj r of None \<Rightarrow> p2 ''doj'' | Some d \<Rightarrow> Some (VDate d)))
     in p3 ++ (map_option VStr \<circ> extra r))"

text \<open>
  What the store can refuse: a \<^verbatim>\<open>MERGE\<close> on a \<^verbatim>\<open>null\<close> property value, and a write that a
  uniqueness constraint forbids.
\<close>

datatype store_error = MergeNullProperty | ConstraintViolation

text \<open>
  The statement fails, and leaves the graph as it was, when a row has no \<^verbatim>\<open>empId\<close>:
  \<^verbatim>\<open>MERGE\<close> refuses a \<^verbatim>\<open>null\<close> property value.
\<close>

definition employees_stmt :: "emp_record list \<Rightarrow> graph \<Rightarrow> store_error + graph" where
  "employees_stmt rows g =
    (if list_ex (\<lambda>r. empId r = None) rows then Inl MergeNullProperty
     else
      (let (g1, t1) = clause (\<lambda>r. merge_node ''Employee'' ''empId'' (the (empId r))
                                  (create_name r) (coalesce_name r)) rows g
       in Inr (fold (\<lambda>(r, e). upd_node e (emp_set r)) t1 g1)))"

subsection \<open>Links to a node merged by its name\<close>

text \<open>
  The statements for the team, the manager, the lead and the project have one shape:
  \<^verbatim>\<open>UNWIND $rows AS r WITH r WHERE r.f IS NOT NULL AND r.f <> ""
  MATCH (e:Employee {empId: r.empId})
  MERGE (t:lbl {name: r.f}) ON CREATE SET ...
  MERGE (e)-[:ty]->(t)\<close>
  The result is the graph and the table after the last clause: the row, its value of
  \<open>f\<close>, the employee, the node merged and the relationship merged.
\<close>

definition link_clauses :: "(emp_record \<Rightarrow> string option) \<Rightarrow> string
    \<Rightarrow> (emp_record \<Rightarrow> string \<Rightarrow> props \<Rightarrow> props) \<Rightarrow> string \<Rightarrow> emp_record list \<Rightarrow> graph
    \<Rightarrow> graph \<times> ((((emp_record \<times> string) \<times> nat) \<times> nat) \<times> nat) list" where
  "link_clauses f lbl on_create ty rows g =
    (let t0 = with_field f rows;
         t1 = bind_rows (\<lambda>rv. match_emp (fst rv) g) t0;
         (g1, t2) = clause (\<lambda>rve. merge_node lbl ''name'' (snd (fst rve))
                               (on_create (fst (fst rve)) (snd (fst rve))) id) t1 g
     in clause (\<lambda>rvet. merge_edge (snd (fst rvet)) ty [] (snd rvet)) t2 g1)"

definition team_stmt :: "emp_record list \<Rightarrow> graph \<Rightarrow> graph" where
  "team_stmt rows g = fst (link_clauses team ''Team'' (\<lambda>r v. id) ''WORKS_IN'' rows g)"

text \<open>
  \<^verbatim>\<open>ON CREATE SET mgr.empId = "stub::manager::" + r.empId + "::" + r.managerName\<close>
  (and \<^verbatim>\<open>"stub::lead::"\<close> for the lead).
\<close>

definition stub_id :: "string \<Rightarrow> string \<Rightarrow> string \<Rightarrow> string" where
  "stub_id kind k v = ''stub::'' @ kind @ ''::'' @ k @ ''::'' @ v"

definition set_stub_id :: "string \<Rightarrow> emp_record \<Rightarrow> string \<Rightarrow> props \<Rightarrow> props" where
  "set_stub_id kind r v p = p(''empId'' := map_option (\<lambda>k. VStr (stub_id kind k v)) (empId r))"

definition manager_stmt :: "emp_record list \<Rightarrow> graph \<Rightarrow> graph" where
  "manager_stmt rows g =
     fst (link_clauses managerName ''Employee'' (set_stub_id ''manager'') ''REPORTS_TO'' rows g)"

definition lead_stmt :: "emp_record list \<Rightarrow> graph \<Rightarrow> graph" where
  "lead_stmt rows g =
     fst (link_clauses leadName ''Employee'' (set_stub_id ''lead'') ''LEAD_REPORTING'' rows g)"

subsection \<open>Skills\<close>

text \<open>
  \<^verbatim>\<open>FOREACH (_ IN CASE WHEN r.s IS NULL THEN [] ELSE [1] END |
     MERGE (s1:Skill {name: r.s}) MERGE (e)-[:HAS_SKILL {type: kind}]->(s1))\<close>
  for one row \<open>(r, e)\<close>.
\<close>

definition skill_foreach :: "(emp_record \<Rightarrow> string option) \<Rightarrow> string \<Rightarrow> emp_record \<times> nat \<Rightarrow> graph \<Rightarrow> graph" where
  "skill_foreach f kind re g =
    (case f (fst re) of
       None \<Rightarrow> g
     | Some s \<Rightarrow>
        (let (g1, t) = clause (\<lambda>u. merge_node ''Skill'' ''name'' s id id) [()] g
         in fst (clause (\<lambda>us. merge_edge (snd re) ''HAS_SKILL'' [(''type'', VStr kind)] (snd us)) t g1)))"

definition skills_stmt :: "emp_record list \<Rightarrow> graph \<Rightarrow> graph" where
  "skills_stmt rows g =
    (let t1 = bind_rows (\<lambda>r. match_emp r g) rows;
         g1 = fold (skill_foreach primarySkill ''primary'') t1 g
     in fold (skill_foreach secondarySkill ''secondary'') t1 g1)"

subsection \<open>Projects\<close>

text \<open>
  \<^verbatim>\<open>SET w.since = coalesce(w.since, CASE WHEN r.doj IS NULL THEN NULL ELSE date(r.doj) END)\<close>
\<close>

definition set_since :: "emp_record \<Rightarrow> props \<Rightarrow> props" where
  "set_since r q =
     q(''since'' := (case q ''since'' of Some v \<Rightarrow> Some v | None \<Rightarrow> map_option VDate (doj r)))"

definition projects_stmt :: "emp_record list \<Rightarrow> graph \<Rightarrow> graph" where
  "projects_stmt rows g =
    (let (g1, t) = link_clauses project ''Project'' (\<lambda>r v. id) ''WORKS_ON'' rows g
     in fold (\<lambda>row. upd_edge (snd row) (set_since (fst (fst (fst (fst row)))))) t g1)"

subsection \<open>The statements in order\<close>

definition later_stmts :: "emp_record list \<Rightarrow> graph \<Rightarrow> graph" where
  "later_stmts rows g =
     projects_stmt rows (skills_stmt rows (lead_stmt rows (manager_stmt rows (team_stmt rows g))))"

definition run_statements :: "emp_record list \<Rightarrow> graph \<Rightarrow> store_error + graph" where
  "run_statements rows g =
    (case employees_stmt rows g of
       Inl e \<Rightarrow> Inl e
     | Inr g1 \<Rightarrow> Inr (later_stmts rows g1))"


section \<open>Uniqueness constraints\<close>

text \<open>
  The first three setup statements of the loader ask for uniqueness constraints:
  \<^verbatim>\<open>CREATE CONSTRAINT emp_id IF NOT EXISTS FOR (e:Employee) REQUIRE e.empId IS UNIQUE\<close>, and the
  like for \<^verbatim>\<open>(s:Skill)\<close> and \<^verbatim>\<open>(p:Project)\<close> on \<^verbatim>\<open>name\<close>; the last two ask for indexes, which
  change no result. A constraint holds of a graph when no two nodes with the label carry
  the same value of the property; a node without the property is not concerned.
\<close>

definition constrained :: "(string \<times> string) list" where
  "constrained = [(''Employee'', ''empId''), (''Skill'', ''name''), (''Project'', ''name'')]"

definition unique_on :: "string \<times> string \<Rightarrow> graph \<Rightarrow> bool" where
  "unique_on c g =
     distinct (List.map_filter (\<lambda>n. if fst c \<in> set (nlabels n) then nprops n (snd c) else None) (nodes g))"

definition satisfies :: "(string \<times> string) list \<Rightarrow> graph \<Rightarrow> bool" where
  "satisfies cs g = list_all (\<lambda>c. unique_on c g) cs"

text \<open>
  A setup statement fails when the store refuses it for a reason of its own (no privilege,
  say): \<open>setup_fails\<close> is the set of the indices of those. A constraint is refused as well
  when the graph has two nodes that break it. The loader prints a notice for a statement
  that fails and goes on; the constraints of the statements that did not fail are in
  force for the statements that follow. (A constraint left by an earlier run makes
  \<^verbatim>\<open>IF NOT EXISTS\<close> succeed without effect: it is in force, and its statement does not fail.)
\<close>

definition setup_failures :: "nat set \<Rightarrow> graph \<Rightarrow> nat list" where
  "setup_failures setup_fails g =
     filter (\<lambda>i. i \<in> setup_fails \<or> (i < 3 \<and> \<not> unique_on (constrained ! i) g)) [0..<5]"

definition in_force :: "nat set \<Rightarrow> graph \<Rightarrow> (string \<times> string) list" where
  "in_force setup_fails g =
     map (\<lambda>i. constrained ! i) (filter (\<lambda>i. i \<notin> set (setup_failures setup_fails g)) [0..<3])"

section \<open>The statements as transactions\<close>

text \<open>
  Each \<^verbatim>\<open>s.run\<close> is a transaction of its own. The store checks the constraints in force
  \<open>cs\<close> at every write to a node; a write that breaks one raises, the transaction is
  rolled back, so that the graph is as it was before the statement, and the exception
  leaves \<^verbatim>\<open>upsert\<close>. The functions below are the statements above with these checks: an
  error is \<open>Inl\<close>, and the constraints are on nodes, so that a write to a relationship
  needs no check.
\<close>

definition and_then :: "'e + 'a \<Rightarrow> ('a \<Rightarrow> 'e + 'b) \<Rightarrow> 'e + 'b" where
  "and_then x f = (case x of Inl e \<Rightarrow> Inl e | Inr a \<Rightarrow> f a)"

definition checked :: "(string \<times> string) list \<Rightarrow> graph \<Rightarrow> store_error + graph" where
  "checked cs g = (if satisfies cs g then Inr g else Inl ConstraintViolation)"

definition set_node :: "(string \<times> string) list \<Rightarrow> nat \<Rightarrow> (props \<Rightarrow> props) \<Rightarrow> graph \<Rightarrow> store_error + graph" where
  "set_node cs i f g = checked cs (upd_node i f g)"

text \<open>An updating clause that may raise, over a table and over the rows of one binding.\<close>

fun each_tx :: "('a \<Rightarrow> graph \<Rightarrow> store_error + graph) \<Rightarrow> 'a list \<Rightarrow> graph \<Rightarrow> store_error + graph" where
  "each_tx f [] g = Inr g"
| "each_tx f (a # tbl) g = and_then (f a g) (each_tx f tbl)"

fun clause_tx :: "('a \<Rightarrow> graph \<Rightarrow> store_error + graph \<times> 'b list) \<Rightarrow> 'a list \<Rightarrow> graph
    \<Rightarrow> store_error + graph \<times> ('a \<times> 'b) list" where
  "clause_tx f [] g = Inr (g, [])"
| "clause_tx f (a # tbl) g =
     and_then (f a g) (\<lambda>(g1, bs).
       and_then (clause_tx f tbl g1) (\<lambda>(g2, rest). Inr (g2, map (Pair a) bs @ rest)))"

text \<open>
  \<^verbatim>\<open>MERGE (x:l {k: v})\<close> with its optional \<^verbatim>\<open>ON CREATE SET\<close> and \<^verbatim>\<open>ON MATCH SET\<close>: the creation
  of the node is a write, and so is each \<^verbatim>\<open>SET\<close>; a \<^verbatim>\<open>MERGE\<close> that matches and has no
  \<^verbatim>\<open>ON MATCH SET\<close> writes nothing.
\<close>

definition merge_node_tx :: "(string \<times> string) list \<Rightarrow> string \<Rightarrow> string \<Rightarrow> string
    \<Rightarrow> (props \<Rightarrow> props) option \<Rightarrow> (props \<Rightarrow> props) option \<Rightarrow> graph
    \<Rightarrow> store_error + graph \<times> nat list" where
  "merge_node_tx cs l k v on_create on_match g =
    (let ms = match_nodes l k v g in
     if ms = []
     then
       and_then (checked cs (g\<lparr>nodes := nodes g @ [\<lparr>nlabels = [l], nprops = [k \<mapsto> VStr v]\<rparr>]\<rparr>))
         (\<lambda>g1. and_then (case on_create of None \<Rightarrow> Inr g1
                                        | Some f \<Rightarrow> set_node cs (length (nodes g)) f g1)
            (\<lambda>g2. Inr (g2, [length (nodes g)])))
     else
       and_then (case on_match of None \<Rightarrow> Inr g
                                 | Some f \<Rightarrow> each_tx (\<lambda>i. set_node cs i f) ms g)
         (\<lambda>g1. Inr (g1, ms)))"

text \<open>
  The employee statement. A row without \<^verbatim>\<open>empId\<close> makes its \<^verbatim>\<open>MERGE\<close> raise. The four items of
  the \<^verbatim>\<open>SET\<close> clause are one write to the node of the row.
\<close>

definition employees_tx :: "(string \<times> string) list \<Rightarrow> emp_record list \<Rightarrow> graph \<Rightarrow> store_error + graph" where
  "employees_tx cs rows g =
     and_then
       (clause_tx (\<lambda>r. case empId r of
                          None \<Rightarrow> (\<lambda>h. Inl MergeNullProperty)
                        | Some k \<Rightarrow> merge_node_tx cs ''Employee'' ''empId'' k
                                     (Some (create_name r)) (Some (coalesce_name r))) rows g)
       (\<lambda>(g1, t1). each_tx (\<lambda>(r, e). set_node cs e (emp_set r)) t1 g1)"

text \<open>The statements that link an employee to a node merged by its name.\<close>

definition link_tx :: "(string \<times> string) list \<Rightarrow> (emp_record \<Rightarrow> string option) \<Rightarrow> string
    \<Rightarrow> (emp_record \<Rightarrow> string \<Rightarrow> (props \<Rightarrow> props) option) \<Rightarrow> string \<Rightarrow> emp_record list \<Rightarrow> graph
    \<Rightarrow> store_error + graph \<times> ((((emp_record \<times> string) \<times> nat) \<times> nat) \<times> nat) list" where
  "link_tx cs f lbl on_create ty rows g =
    (let t0 = with_field f rows;
         t1 = bind_rows (\<lambda>rv. match_emp (fst rv) g) t0
     in and_then
          (clause_tx (\<lambda>rve. merge_node_tx cs lbl ''name'' (snd (fst rve))
                               (on_create (fst (fst rve)) (snd (fst rve))) None) t1 g)
          (\<lambda>(g1, t2). Inr (clause (\<lambda>rvet. merge_edge (snd (fst rvet)) ty [] (snd rvet)) t2 g1)))"

definition team_tx :: "(string \<times> string) list \<Rightarrow> emp_record list \<Rightarrow> graph \<Rightarrow> store_error + graph" where
  "team_tx cs rows g =
     and_then (link_tx cs team ''Team'' (\<lambda>r v. None) ''WORKS_IN'' rows g) (\<lambda>(g1, t). Inr g1)"

definition manager_tx :: "(string \<times> string) list \<Rightarrow> emp_record list \<Rightarrow> graph \<Rightarrow> store_error + graph" where
  "manager_tx cs rows g =
     and_then (link_tx cs managerName ''Employee'' (\<lambda>r v. Some (set_stub_id ''manager'' r v))
                 ''REPORTS_TO'' rows g)
       (\<lambda>(g1, t). Inr g1)"

definition lead_tx :: "(string \<times> string) list \<Rightarrow> emp_record list \<Rightarrow> graph \<Rightarrow> store_error + graph" where
  "lead_tx cs rows g =
     and_then (link_tx cs leadName ''Employee'' (\<lambda>r v. Some (set_stub_id ''lead'' r v))
                 ''LEAD_REPORTING'' rows g)
       (\<lambda>(g1, t). Inr g1)"

definition skill_foreach_tx :: "(string \<times> string) list \<Rightarrow> (emp_record \<Rightarrow> string option) \<Rightarrow> string
    \<Rightarrow> emp_record \<times> nat \<Rightarrow> graph \<Rightarrow> store_error + graph" where
  "skill_foreach_tx cs f kind re g =
    (case f (fst re) of
       None \<Rightarrow> Inr g
     | Some s \<Rightarrow>
        and_then (clause_tx (\<lambda>u. merge_node_tx cs ''Skill'' ''name'' s None None) [()] g)
          (\<lambda>(g1, t). Inr (fst (clause (\<lambda>us. merge_edge (snd re) ''HAS_SKILL'' [(''type'', VStr kind)]
                                              (snd us)) t g1))))"

definition skills_tx :: "(string \<times> string) list \<Rightarrow> emp_record list \<Rightarrow> graph \<Rightarrow> store_error + graph" where
  "skills_tx cs rows g =
    (let t1 = bind_rows (\<lambda>r. match_emp r g) rows
     in and_then (each_tx (skill_foreach_tx cs primarySkill ''primary'') t1 g)
          (each_tx (skill_foreach_tx cs secondarySkill ''secondary'') t1))"

definition projects_tx :: "(string \<times> string) list \<Rightarrow> emp_record list \<Rightarrow> graph \<Rightarrow> store_error + graph" where
  "projects_tx cs rows g =
     and_then (link_tx cs project ''Project'' (\<lambda>r v. None) ''WORKS_ON'' rows g)
       (\<lambda>(g1, t). Inr (fold (\<lambda>row. upd_edge (snd row) (set_since (fst (fst (fst (fst row)))))) t g1))"

section \<open>\<^verbatim>\<open>upsert\<close> and \<^verbatim>\<open>main\<close>\<close>

datatype message =
    NothingToImport
  | SetupNotice nat
  | NoValidRowsFound
  | CouldNotOpenSheet
  | SheetNameTip
  | ExcelNotFound
  | Upserted nat

datatype stmt = Setup nat | Employees | TeamLink | ManagerEdges | LeadEdges | Skills | Projects

definition statement :: "(string \<times> string) list \<Rightarrow> emp_record list \<Rightarrow> stmt \<Rightarrow> graph \<Rightarrow> store_error + graph" where
  "statement cs rows s g =
    (case s of
       Setup i \<Rightarrow> Inr g
     | Employees \<Rightarrow> employees_tx cs rows g
     | TeamLink \<Rightarrow> team_tx cs rows g
     | ManagerEdges \<Rightarrow> manager_tx cs rows g
     | LeadEdges \<Rightarrow> lead_tx cs rows g
     | Skills \<Rightarrow> skills_tx cs rows g
     | Projects \<Rightarrow> projects_tx cs rows g)"

text \<open>
  The statements after the setup, one \<^verbatim>\<open>s.run\<close> after the other: the first that raises is
  the last one sent, and the graph stays as the statements before it have left it. The
  result is the error raised, if any, the statements sent and the graph left.
\<close>

fun run_all :: "('s \<Rightarrow> graph \<Rightarrow> store_error + graph) \<Rightarrow> 's list \<Rightarrow> graph
    \<Rightarrow> store_error option \<times> 's list \<times> graph" where
  "run_all ex [] g = (None, [], g)"
| "run_all ex (s # ss) g =
     (case ex s g of
        Inl e \<Rightarrow> (Some e, [s], g)
      | Inr g1 \<Rightarrow> (case run_all ex ss g1 of (e, sent, g2) \<Rightarrow> (e, s # sent, g2)))"

text \<open>
  What a call of \<^verbatim>\<open>upsert\<close> does: the messages it prints, the statements it sends to the
  store (\<^verbatim>\<open>s.run\<close>), and its result: the graph it leaves when it returns, or the error that
  leaves it together with the graph left at that moment.
\<close>

record upsert_outcome =
  printed :: "message list"
  ran :: "stmt list"
  result :: "(store_error \<times> graph) + graph"

definition upsert :: "nat set \<Rightarrow> graph \<Rightarrow> emp_record list \<Rightarrow> upsert_outcome" where
  "upsert setup_fails g records =
    (if records = [] then \<lparr>printed = [NothingToImport], ran = [], result = Inr g\<rparr>
     else
      (case run_all (statement (in_force setup_fails g) records)
              [Employees, TeamLink, ManagerEdges, LeadEdges, Skills, Projects] g of
         (e, sent, g') \<Rightarrow>
           \<lparr>printed = map SetupNotice (setup_failures setup_fails g),
            ran = map Setup [0..<5] @ sent,
            result = (case e of None \<Rightarrow> Inr g' | Some x \<Rightarrow> Inl (x, g'))\<rparr>))"

text \<open>The graph in the store after the call, whether it returned or raised.\<close>

definition graph_left :: "(store_error \<times> graph) + graph \<Rightarrow> graph" where
  "graph_left r = (case r of Inl (e, g) \<Rightarrow> g | Inr g \<Rightarrow> g)"

datatype read_error = SheetValueError | FileNotFoundError

text \<open>
  A run of \<^verbatim>\<open>main\<close>: \<open>excel\<close> is what \<^verbatim>\<open>pd.read_excel\<close> gives (the sheet or one of the two
  errors \<^verbatim>\<open>main\<close> catches), \<open>g\<close> the graph in the store. An exception that nothing catches
  ends the process with exit code 1.
\<close>

record run =
  exit_code :: nat
  out :: "message list"
  sent :: "stmt list"
  final :: graph

definition main :: "flex_parser \<Rightarrow> nat set \<Rightarrow> read_error + dataframe \<Rightarrow> graph \<Rightarrow> run" where
  "main to_datetime setup_fails excel g =
    (case excel of
       Inl SheetValueError \<Rightarrow>
         \<lparr>exit_code = 1, out = [CouldNotOpenSheet, SheetNameTip], sent = [], final = g\<rparr>
     | Inl FileNotFoundError \<Rightarrow>
         \<lparr>exit_code = 1, out = [ExcelNotFound], sent = [], final = g\<rparr>
     | Inr df \<Rightarrow>
        (case build_records to_datetime df of
           Inl e \<Rightarrow> \<lparr>exit_code = 1, out = [], sent = [], final = g\<rparr>
         | Inr records \<Rightarrow>
            if records = [] then
              \<lparr>exit_code = 0, out = [NoValidRowsFound], sent = [], final = g\<rparr>
            else
              (let u = upsert setup_fails g records in
               case result u of
                 Inl (e, g') \<Rightarrow> \<lparr>exit_code = 1, out = printed u, sent = ran u, final = g'\<rparr>
               | Inr g' \<Rightarrow>
                   \<lparr>exit_code = 0, out = printed u @ [Upserted (length records)],
                    sent = ran u, final = g'\<rparr>)))"

section \<open>Predicates used in the statements\<close>

text \<open>
  A cell without a superscript digit: every character that \<^verbatim>\<open>isdigit\<close> accepts is a
  decimal digit, so \<^verbatim>\<open>int\<close> cannot raise on it.
\<close>

definition plain_digits :: "cell \<Rightarrow> bool" where
  "plain_digits v =
     (case v of None \<Rightarrow> True | Some s \<Rightarrow> list_all (\<lambda>c. is_digit c \<longrightarrow> is_decimal c) s)"

text \<open>The two fields of the validity gate are \<^verbatim>\<open>None\<close> or a non-empty string.\<close>

definition gate_fields_ok :: "emp_record \<Rightarrow> bool" where
  "gate_fields_ok r = (empId r \<noteq> Some [] \<and> name r \<noteq> Some [])"

text \<open>The positions of a list at which a predicate holds, in ascending order.\<close>

definition find_idx :: "('x \<Rightarrow> bool) \<Rightarrow> 'x list \<Rightarrow> nat list" where
  "find_idx P xs = filter (\<lambda>i. P (xs ! i)) [0..<length xs]"

text \<open>
  A \<^verbatim>\<open>MERGE\<close> clause without an \<^verbatim>\<open>ON MATCH\<close> update, on the list it works on (the nodes
  or the relationships): for each row in turn, the positions that match the row's
  pattern, or one new element appended when there is none.
\<close>

fun merge_all :: "('a \<Rightarrow> 'x \<Rightarrow> bool) \<Rightarrow> ('a \<Rightarrow> 'x) \<Rightarrow> 'a list \<Rightarrow> 'x list \<Rightarrow> 'x list \<times> ('a \<times> nat) list" where
  "merge_all M mk [] xs = (xs, [])"
| "merge_all M mk (a # tbl) xs =
     (let ms = find_idx (M a) xs;
          xs1 = (if ms = [] then xs @ [mk a] else xs);
          bs = (if ms = [] then [length xs] else ms);
          (xs2, rest) = merge_all M mk tbl xs1
      in (xs2, map (Pair a) bs @ rest))"

text \<open>The update of an optional \<^verbatim>\<open>SET\<close>: none leaves the properties.\<close>

definition upd_of :: "(props \<Rightarrow> props) option \<Rightarrow> props \<Rightarrow> props" where
  "upd_of u = (case u of None \<Rightarrow> id | Some f \<Rightarrow> f)"

text \<open>The key under which \<^verbatim>\<open>MATCH (e:Employee {empId: k})\<close> finds a node, if it has one.\<close>

definition emp_key :: "node \<Rightarrow> string option" where
  "emp_key n =
    (if ''Employee'' \<in> set (nlabels n)
     then (case nprops n ''empId'' of Some (VStr k) \<Rightarrow> Some k | _ \<Rightarrow> None)
     else None)"

definition row_keys :: "emp_record list \<Rightarrow> string set" where
  "row_keys rows = {k. \<exists>r\<in>set rows. empId r = Some k}"

text \<open>
  What the employee statement does to one node: the \<^verbatim>\<open>ON MATCH\<close> updates of the rows with
  the node's key, in row order, then their \<^verbatim>\<open>SET\<close> updates, in row order.
\<close>

definition rows_for :: "string \<Rightarrow> emp_record list \<Rightarrow> emp_record list" where
  "rows_for k rows = filter (\<lambda>r. empId r = Some k) rows"

definition emp_update :: "emp_record list \<Rightarrow> node \<Rightarrow> node" where
  "emp_update rows n =
    (case emp_key n of
       None \<Rightarrow> n
     | Some k \<Rightarrow>
         n\<lparr>nprops := fold emp_set (rows_for k rows) (fold coalesce_name (rows_for k rows) (nprops n))\<rparr>)"

definition coalesce_step :: "emp_record \<Rightarrow> node \<Rightarrow> node" where
  "coalesce_step r n =
    (if empId r \<noteq> None \<and> emp_key n = empId r
     then n\<lparr>nprops := coalesce_name r (nprops n)\<rparr> else n)"

definition coalesce_update :: "emp_record list \<Rightarrow> node \<Rightarrow> node" where
  "coalesce_update rows n =
    (case emp_key n of
       None \<Rightarrow> n
     | Some k \<Rightarrow> n\<lparr>nprops := fold coalesce_name (rows_for k rows) (nprops n)\<rparr>)"

definition set_update :: "emp_record list \<Rightarrow> node \<Rightarrow> node" where
  "set_update rows n =
    (case emp_key n of
       None \<Rightarrow> n
     | Some k \<Rightarrow> n\<lparr>nprops := fold emp_set (rows_for k rows) (nprops n)\<rparr>)"

definition fresh_emp :: "string \<Rightarrow> node" where
  "fresh_emp k = \<lparr>nlabels = [''Employee''], nprops = [''empId'' \<mapsto> VStr k]\<rparr>"



text \<open>
  A later state of the store: the nodes are kept and more may follow them; the
  relationships are kept, each with its ends, its type and its properties, but for a
  \<^verbatim>\<open>since\<close> that was missing and may be set now, and more may follow them.
\<close>

definition edge_kept :: "edge \<Rightarrow> edge \<Rightarrow> bool" where
  "edge_kept e e' =
    (esrc e' = esrc e \<and> edst e' = edst e \<and> etype e' = etype e \<and>
     (\<forall>k. k \<noteq> ''since'' \<longrightarrow> eprops e' k = eprops e k) \<and>
     (eprops e ''since'' \<noteq> None \<longrightarrow> eprops e' ''since'' = eprops e ''since''))"

definition grows :: "graph \<Rightarrow> graph \<Rightarrow> bool" where
  "grows g g' =
    (take (length (nodes g)) (nodes g') = nodes g \<and>
     length (nodes g) \<le> length (nodes g') \<and>
     length (edges g) \<le> length (edges g') \<and>
     (\<forall>i<length (edges g). edge_kept (edges g ! i) (edges g' ! i)))"

definition new_nodes :: "graph \<Rightarrow> graph \<Rightarrow> node list" where
  "new_nodes g g' = drop (length (nodes g)) (nodes g')"

text \<open>The new nodes are no employees that a row of the batch matches by its \<^verbatim>\<open>empId\<close>.\<close>

definition inert :: "emp_record list \<Rightarrow> graph \<Rightarrow> graph \<Rightarrow> bool" where
  "inert rows g g' =
    (grows g g' \<and> (\<forall>n\<in>set (new_nodes g g'). \<forall>k\<in>row_keys rows. emp_key n \<noteq> Some k))"

text \<open>
  The new nodes carry one label and a \<^verbatim>\<open>name\<close> that no node with that label had before.
\<close>

definition adds_named :: "string \<Rightarrow> graph \<Rightarrow> graph \<Rightarrow> bool" where
  "adds_named lbl g g' =
    (grows g g' \<and>
     (\<forall>n\<in>set (new_nodes g g'). nlabels n = [lbl] \<and>
        (\<exists>v. nprops n ''name'' = Some (VStr v) \<and>
             (\<forall>x\<in>set (nodes g). \<not> node_matches lbl ''name'' v x))))"


text \<open>
  A node with the label and the name exists, and the node \<open>e\<close> has the relationship to
  each such node.
\<close>

definition linked :: "string \<Rightarrow> string \<Rightarrow> (string \<times> pval) list \<Rightarrow> nat \<Rightarrow> string \<Rightarrow> graph \<Rightarrow> bool" where
  "linked lbl ty req e v g =
    ((\<exists>n\<in>set (nodes g). node_matches lbl ''name'' v n) \<and>
     (\<forall>t\<in>set (match_nodes lbl ''name'' v g). \<exists>x\<in>set (edges g). edge_matches e ty req t x))"

text \<open>
  For every pair of a row and a name, and every employee of the row: a node with the
  label and the name exists, and the employee has the relationship to each such node.
\<close>

definition merged_sat :: "(emp_record \<times> string) list \<Rightarrow> string \<Rightarrow> string \<Rightarrow> (string \<times> pval) list
    \<Rightarrow> graph \<Rightarrow> bool" where
  "merged_sat pairs lbl ty req g =
    (\<forall>rv\<in>set pairs. \<forall>e\<in>set (match_emp (fst rv) g).
       (\<exists>n\<in>set (nodes g). node_matches lbl ''name'' (snd rv) n) \<and>
       (\<forall>t\<in>set (match_nodes lbl ''name'' (snd rv) g).
          \<exists>x\<in>set (edges g). edge_matches e ty req t x))"

text \<open>\<^verbatim>\<open>UNWIND $rows AS r\<close> with the value of a field that is not \<^verbatim>\<open>null\<close> (it may be empty).\<close>

definition with_some :: "(emp_record \<Rightarrow> string option) \<Rightarrow> emp_record list \<Rightarrow> (emp_record \<times> string) list" where
  "with_some f rows = List.map_filter (\<lambda>r. map_option (Pair r) (f r)) rows"

text \<open>Every \<^verbatim>\<open>WORKS_ON\<close> relationship of a row's employee to its project has a \<^verbatim>\<open>since\<close>,
  unless the row has no date of joining.\<close>

definition since_sat :: "emp_record list \<Rightarrow> graph \<Rightarrow> bool" where
  "since_sat rows g =
    (\<forall>rv\<in>set (with_field project rows). \<forall>e\<in>set (match_emp (fst rv) g).
       \<forall>t\<in>set (match_nodes ''Project'' ''name'' (snd rv) g).
         \<forall>w\<in>set (match_edges e ''WORKS_ON'' [] t g).
           doj (fst rv) = None \<or> eprops (edges g ! w) ''since'' \<noteq> None)"


text \<open>The relationships are kept, in their places, and more may follow them.\<close>

definition keeps_edges :: "graph \<Rightarrow> graph \<Rightarrow> bool" where
  "keeps_edges g g' =
    (length (edges g) \<le> length (edges g') \<and>
     (\<forall>i<length (edges g). edge_kept (edges g ! i) (edges g' ! i)))"



section \<open>Inputs of the examples\<close>

definition empty_graph :: graph where
  "empty_graph = \<lparr>nodes = [], edges = []\<rparr>"

text \<open>No flexible parse succeeds.\<close>

definition no_parse :: flex_parser where
  "no_parse = (\<lambda>s dayfirst. None)"

text \<open>A sheet whose second employee carries, as its id, the synthetic id of the stub that the
  first row's manager reference creates.\<close>

definition clash_sheet :: dataframe where
  "clash_sheet =
    \<lparr>columns = [''Emp Id'', ''Emp Name'', ''Reporting Manager''],
     data = [[Some ''E1'', Some ''Alice'', Some ''Bob''],
             [Some ''stub::manager::E1::Bob'', Some ''Carol'', None]]\<rparr>"




text \<open>A store with one employee, one project and the employee's \<^verbatim>\<open>WORKS_ON\<close> relationship.\<close>

definition stored_graph :: graph where
  "stored_graph =
    \<lparr>nodes = [\<lparr>nlabels = [''Employee''],
                nprops = [''empId'' \<mapsto> VStr ''E1'', ''name'' \<mapsto> VStr ''Alice'',
                          ''gender'' \<mapsto> VStr ''F'', ''designation'' \<mapsto> VStr ''Engineer'',
                          ''doj'' \<mapsto> VDate ''2020-01-01'']\<rparr>,
               \<lparr>nlabels = [''Project''], nprops = [''name'' \<mapsto> VStr ''Apollo'']\<rparr>],
     edges = [\<lparr>esrc = 0, edst = 1, etype = ''WORKS_ON'',
               eprops = [''since'' \<mapsto> VDate ''2020-01-01'']\<rparr>]\<rparr>"

text \<open>A later batch: the stored employee, with another date of joining, on the same project.\<close>

definition later_rows :: "emp_record list" where
  "later_rows =
    [rec_init\<lparr>empId := Some ''E1'', name := Some ''Alice'', doj := Some ''2024-05-05'',
        project := Some ''Apollo''\<rparr>]"

text \<open>A sheet without a date of joining, for the stored employee.\<close>

definition undated_sheet :: dataframe where
  "undated_sheet =
    \<lparr>columns = [''Emp Id'', ''Emp Name''], data = [[Some ''E1'', Some ''Alice'']]\<rparr>"

text \<open>A sheet with the column \<^verbatim>\<open>Designation\<close> and a passthrough column \<^verbatim>\<open>designation\<close>.\<close>

definition shadow_sheet :: dataframe where
  "shadow_sheet =
    \<lparr>columns = [''Emp Id'', ''Emp Name'', ''Designation'', ''designation''],
     data = [[Some ''E1'', Some ''Alice'', Some ''Lead'', Some ''Boss'']]\<rparr>"

text \<open>A record without a name whose \<open>extra\<close> has the keys \<^verbatim>\<open>name\<close> and \<^verbatim>\<open>designation\<close>, and one
  with an empty \<open>extra\<close>.\<close>

definition shadow_rows :: "emp_record list" where
  "shadow_rows =
    [rec_init\<lparr>empId := Some ''E1'', designation := Some ''Lead'',
        extra := [''name'' \<mapsto> ''Zed'', ''designation'' \<mapsto> ''Boss'']\<rparr>]"

definition nameless_rows :: "emp_record list" where
  "nameless_rows = [rec_init\<lparr>empId := Some ''E1'', designation := Some ''Lead''\<rparr>]"


text \<open>The store after Alice's row, and after her manager's stub.\<close>

definition alice_graph :: graph where
  "alice_graph =
    \<lparr>nodes = [\<lparr>nlabels = [''Employee''],
                nprops = [''empId'' \<mapsto> VStr ''E1'', ''name'' \<mapsto> VStr ''Alice'']\<rparr>],
     edges = []\<rparr>"



section \<open>The record builder\<close>

lemma norm_str_nonempty: "norm_str x = Some s \<Longrightarrow> s \<noteq> []"
  by (auto simp: norm_str_def Let_def split: option.splits if_splits)

lemma cell_step_gate_fields:
  "gate_fields_ok r \<Longrightarrow> cell_step tdt cv r = Inr r' \<Longrightarrow> gate_fields_ok r'"
  using norm_str_nonempty[of "snd cv" "[]"]
  by (auto simp: cell_step_def gate_fields_ok_def Let_def split: option.splits if_splits sum.splits)

lemma build_row_gate_fields:
  "gate_fields_ok r \<Longrightarrow> build_row tdt items r = Inr r' \<Longrightarrow> gate_fields_ok r'"
proof (induction items arbitrary: r)
  case Nil
  then show ?case by simp
next
  case (Cons cv items)
  then show ?case
    by (auto split: sum.splits dest: cell_step_gate_fields)
qed

lemma truthy_gate:
  "gate_fields_ok r \<Longrightarrow>
   (truthy (empId r) \<and> truthy (name r)) = (empId r \<noteq> None \<and> name r \<noteq> None)"
  by (auto simp: truthy_def gate_fields_ok_def split: option.splits)

lemma build_loop_filter:
  "build_loop tdt cols rows acc = Inr recs \<Longrightarrow>
   \<exists>rs. map (\<lambda>row. build_row tdt (zip cols row) rec_init) rows = map Inr rs \<and>
        recs = acc @ filter (\<lambda>r. empId r \<noteq> None \<and> name r \<noteq> None) rs"
proof (induction rows arbitrary: acc)
  case Nil
  then show ?case by simp
next
  case (Cons row rows)
  from Cons.prems obtain r where r: "build_row tdt (zip cols row) rec_init = Inr r"
    by (auto split: sum.splits)
  have ok: "gate_fields_ok r"
    using build_row_gate_fields[OF _ r] by (simp add: gate_fields_ok_def rec_init_def)
  let ?acc = "if empId r \<noteq> None \<and> name r \<noteq> None then acc @ [r] else acc"
  from Cons.prems r have "build_loop tdt cols rows ?acc = Inr recs"
    using truthy_gate[OF ok] by (auto split: if_splits)
  from Cons.IH[OF this] obtain rs where
    rs: "map (\<lambda>row. build_row tdt (zip cols row) rec_init) rows = map Inr rs"
        "recs = ?acc @ filter (\<lambda>r. empId r \<noteq> None \<and> name r \<noteq> None) rs"
    by blast
  show ?case
    apply (rule exI[of _ "r # rs"])
    using r rs by auto
qed

lemma ddmmyy_total:
  assumes "list_all (\<lambda>c. is_digit c \<longrightarrow> is_decimal c) s"
  shows "\<exists>d. ddmmyy s = Inr d"
proof (cases "length s = 6 \<and> list_all is_digit s")
  case True
  then have dec: "list_all is_decimal s"
    using assms by (auto simp: list_all_iff)
  have a: "list_all is_decimal (take 2 s)" "list_all is_decimal (take 2 (drop 2 s))"
       "list_all is_decimal (drop 4 s)"
    using dec by (auto simp: list_all_iff dest: in_set_takeD in_set_dropD)
  have b: "take 2 s \<noteq> []" "take 2 (drop 2 s) \<noteq> []" "drop 4 s \<noteq> []"
    using True by auto
  show ?thesis
    using True a b by (simp add: ddmmyy_def py_int_def Let_def)
next
  case False
  then show ?thesis by (auto simp: ddmmyy_def)
qed

lemma set_strip_chars: "set (strip_chars P s) \<subseteq> set s"
  unfolding strip_chars_def
  by (metis set_dropWhileD set_rev subsetI)

lemma parse_date_flex_total:
  assumes "plain_digits v"
  shows "\<exists>d. parse_date_flex tdt v = Inr d"
proof (cases v)
  case None
  then show ?thesis by (simp add: parse_date_flex_def)
next
  case (Some s)
  have "set (strip_seps (strip s)) \<subseteq> set s"
    using set_strip_chars[of is_space s] by (auto simp: strip_seps_def remove_char_def strip_def)
  then have "list_all (\<lambda>c. is_digit c \<longrightarrow> is_decimal c) (strip_seps (strip s))"
    using assms Some by (auto simp: plain_digits_def list_all_iff)
  from ddmmyy_total[OF this] show ?thesis
    using Some by (auto simp: parse_date_flex_def Let_def split: option.splits)
qed

lemma cell_step_total:
  "plain_digits (snd cv) \<Longrightarrow> \<exists>r'. cell_step tdt cv r = Inr r'"
  using parse_date_flex_total[of "snd cv" tdt]
  by (auto simp: cell_step_def Let_def split: option.splits sum.splits)

lemma build_row_total:
  "list_all (\<lambda>cv. plain_digits (snd cv)) items \<Longrightarrow> \<exists>r'. build_row tdt items r = Inr r'"
proof (induction items arbitrary: r)
  case Nil
  then show ?case by simp
next
  case (Cons cv items)
  then obtain r1 where "cell_step tdt cv r = Inr r1"
    using cell_step_total[of cv tdt r] by auto
  then show ?case using Cons by auto
qed

lemma build_loop_total:
  "list_all (list_all plain_digits) rows \<Longrightarrow> \<exists>recs. build_loop tdt cols rows acc = Inr recs"
proof (induction rows arbitrary: acc)
  case Nil
  then show ?case by simp
next
  case (Cons row rows)
  have "list_all (\<lambda>cv. plain_digits (snd cv)) (zip cols row)"
    using Cons.prems by (auto simp: list_all_iff dest: set_zip_rightD)
  from build_row_total[OF this] obtain r where "build_row tdt (zip cols row) rec_init = Inr r"
    by blast
  then show ?case using Cons by auto
qed

text \<open>
  Claim C2. The builder returns (it can only raise on a date cell with a superscript
  digit), and what it returns is, in row order, the records of exactly those rows whose
  \<open>empId\<close> and \<open>name\<close> (both set by \<^verbatim>\<open>norm_str\<close>) are not \<^verbatim>\<open>None\<close>; the other rows leave
  no trace in the list.
\<close>

theorem build_records_gate:
  "(list_all (list_all plain_digits) (data df) \<longrightarrow> (\<exists>recs. build_records tdt df = Inr recs)) \<and>
   (build_records tdt df = Inr recs \<longrightarrow>
     (\<exists>rs. map (\<lambda>row. build_row tdt (zip (map norm_col (columns df)) row) rec_init) (data df)
             = map Inr rs \<and>
           recs = filter (\<lambda>r. empId r \<noteq> None \<and> name r \<noteq> None) rs))"
  using build_loop_total[of "data df" tdt "map norm_col (columns df)" "[]"]
        build_loop_filter[of tdt "map norm_col (columns df)" "data df" "[]" recs]
  by (auto simp: build_records_def)

theorem build_records_gate_witness:
  "list_all (list_all plain_digits)
     (data \<lparr>columns = [''Emp Id'', ''Emp Name''],
        data = [[Some ''E1'', Some ''Alice''], [Some ''E2'', None], [Some ''  '', Some ''Bob'']]\<rparr>) \<and>
   (\<exists>recs. build_records (\<lambda>s d. None)
       \<lparr>columns = [''Emp Id'', ''Emp Name''],
        data = [[Some ''E1'', Some ''Alice''], [Some ''E2'', None], [Some ''  '', Some ''Bob'']]\<rparr>
       = Inr recs \<and>
     map empId recs = [Some ''E1''] \<and>
     (\<exists>rs. map (\<lambda>row. build_row (\<lambda>s d. None)
                (zip (map norm_col (columns \<lparr>columns = [''Emp Id'', ''Emp Name''],
                   data = [[Some ''E1'', Some ''Alice''], [Some ''E2'', None], [Some ''  '', Some ''Bob'']]\<rparr>)) row)
                rec_init)
              (data \<lparr>columns = [''Emp Id'', ''Emp Name''],
                 data = [[Some ''E1'', Some ''Alice''], [Some ''E2'', None], [Some ''  '', Some ''Bob'']]\<rparr>)
             = map Inr rs \<and>
           recs = filter (\<lambda>r. empId r \<noteq> None \<and> name r \<noteq> None) rs))"
proof -
  let ?df = "\<lparr>columns = [''Emp Id'', ''Emp Name''],
        data = [[Some ''E1'', Some ''Alice''], [Some ''E2'', None], [Some ''  '', Some ''Bob'']]\<rparr>"
  let ?tdt = "\<lambda>(s::string) (d::bool). None :: string option"
  have h: "list_all (list_all plain_digits) (data ?df)"
    by code_simp
  have c: "(case build_records ?tdt ?df of Inl e \<Rightarrow> False | Inr recs \<Rightarrow> map empId recs = [Some ''E1''])"
    by code_simp
  from build_records_gate[of ?df ?tdt, THEN conjunct1, THEN mp, OF h]
  obtain recs where recs: "build_records ?tdt ?df = Inr recs" ..
  with c have m: "map empId recs = [Some ''E1'']" by simp
  note rs = build_records_gate[of ?df ?tdt recs, THEN conjunct2, THEN mp, OF recs]
  show ?thesis
    by (rule conjI[OF h], rule exI[of _ recs], rule conjI[OF recs], rule conjI[OF m], rule rs)
qed


section \<open>Date parsing\<close>

lemma ddmmyy_decimal:
  assumes "list_all is_decimal [a, b, c, d, e, f]"
  shows "ddmmyy [a, b, c, d, e, f] =
     Inr (date_iso (if 10 * digit_val e + digit_val f \<le> 69
                    then 2000 + (10 * digit_val e + digit_val f)
                    else 1900 + (10 * digit_val e + digit_val f))
            (10 * digit_val c + digit_val d) (10 * digit_val a + digit_val b))"
proof -
  have "list_all is_digit [a, b, c, d, e, f]"
    using assms by (auto simp: is_digit_def is_decimal_def Let_def)
  then show ?thesis
    using assms by (simp add: ddmmyy_def py_int_def Let_def)
qed

lemma ddmmyy_other: "length s2 \<noteq> 6 \<or> \<not> list_all is_digit s2 \<Longrightarrow> ddmmyy s2 = Inr None"
  by (auto simp: ddmmyy_def)

lemma date_iso_out_of_range:
  "m = 0 \<or> 12 < m \<or> dd = 0 \<or> days_in_month y m < dd \<Longrightarrow> date_iso y m dd = None"
  by (auto simp: date_iso_def)

lemma parse_date_flex_order:
  assumes "strip v \<noteq> []"
  shows "parse_date_flex tdt (Some v) =
    (case tdt (strip v) True of
       Some d \<Rightarrow> Inr (Some d)
     | None \<Rightarrow> (case tdt (strip v) False of
                  Some d \<Rightarrow> Inr (Some d)
                | None \<Rightarrow> ddmmyy (strip_seps (strip v))))"
  using assms by (simp add: parse_date_flex_def Let_def)

lemma strip_examples:
  "strip ''150824'' = ''150824''" "strip ''010170'' = ''010170''" "strip ''010169'' = ''010169''"
  "strip ''1987-05-02'' = ''1987-05-02''"
  by code_simp+

lemma ddmmyy_examples:
  "ddmmyy (strip_seps ''150824'') = Inr (Some ''2024-08-15'')"
  "ddmmyy (strip_seps ''010170'') = Inr (Some ''1970-01-01'')"
  "ddmmyy (strip_seps ''010169'') = Inr (Some ''2069-01-01'')"
  by code_simp+

text \<open>
  What \<^verbatim>\<open>parse_date_flex\<close> does for every behaviour \<open>tdt\<close> of pandas' parser: a missing or
  blank value gives \<^verbatim>\<open>None\<close>; otherwise the day-first parse of the stripped string is taken
  when it succeeds, else the month-first one, and when both fail the string without
  separators decides. Six decimal digits are read as DDMMYY with the year 2000+YY for YY
  up to 69 and 1900+YY from 70 on, and give \<^verbatim>\<open>None\<close> when the month is outside 1..12 or the
  day outside the month; anything that is not six digits gives \<^verbatim>\<open>None\<close>. What a string
  yields that pandas' parser accepts is pandas' matter: the values of the six-digit
  strings below are those of the DDMMYY reading, which the loader reaches only when
  the parser has rejected the string twice.
\<close>

theorem parse_date_flex_spec:
  "parse_date_flex tdt None = Inr None \<and>
   parse_date_flex tdt (Some []) = Inr None \<and>
   (strip v \<noteq> [] \<and> tdt (strip v) True = Some d1 \<longrightarrow>
      parse_date_flex tdt (Some v) = Inr (Some d1)) \<and>
   (strip v \<noteq> [] \<and> tdt (strip v) True = None \<and> tdt (strip v) False = Some d2 \<longrightarrow>
      parse_date_flex tdt (Some v) = Inr (Some d2)) \<and>
   (strip v \<noteq> [] \<and> tdt (strip v) True = None \<and> tdt (strip v) False = None \<longrightarrow>
      parse_date_flex tdt (Some v) = ddmmyy (strip_seps (strip v))) \<and>
   (list_all is_decimal [a, b, c, d, e, f] \<longrightarrow>
      ddmmyy [a, b, c, d, e, f] =
        Inr (date_iso (if 10 * digit_val e + digit_val f \<le> 69
                       then 2000 + (10 * digit_val e + digit_val f)
                       else 1900 + (10 * digit_val e + digit_val f))
               (10 * digit_val c + digit_val d) (10 * digit_val a + digit_val b))) \<and>
   (length s2 \<noteq> 6 \<or> \<not> list_all is_digit s2 \<longrightarrow> ddmmyy s2 = Inr None) \<and>
   (m = 0 \<or> 12 < m \<or> dd = 0 \<or> days_in_month y m < dd \<longrightarrow> date_iso y m dd = None) \<and>
   (tdt ''150824'' True = None \<and> tdt ''150824'' False = None \<longrightarrow>
      parse_date_flex tdt (Some ''150824'') = Inr (Some ''2024-08-15'')) \<and>
   (tdt ''1987-05-02'' True = Some ''1987-05-02'' \<longrightarrow>
      parse_date_flex tdt (Some ''1987-05-02'') = Inr (Some ''1987-05-02'')) \<and>
   (tdt ''010170'' True = None \<and> tdt ''010170'' False = None \<longrightarrow>
      parse_date_flex tdt (Some ''010170'') = Inr (Some ''1970-01-01'')) \<and>
   (tdt ''010169'' True = None \<and> tdt ''010169'' False = None \<longrightarrow>
      parse_date_flex tdt (Some ''010169'') = Inr (Some ''2069-01-01''))"
proof (intro conjI impI)
  show "parse_date_flex tdt None = Inr None"
    by (simp add: parse_date_flex_def)
  show "parse_date_flex tdt (Some []) = Inr None"
    by (simp add: parse_date_flex_def strip_def strip_chars_def)
  show "parse_date_flex tdt (Some v) = Inr (Some d1)"
    if "strip v \<noteq> [] \<and> tdt (strip v) True = Some d1"
    using that by (simp add: parse_date_flex_order)
  show "parse_date_flex tdt (Some v) = Inr (Some d2)"
    if "strip v \<noteq> [] \<and> tdt (strip v) True = None \<and> tdt (strip v) False = Some d2"
    using that by (simp add: parse_date_flex_order)
  show "parse_date_flex tdt (Some v) = ddmmyy (strip_seps (strip v))"
    if "strip v \<noteq> [] \<and> tdt (strip v) True = None \<and> tdt (strip v) False = None"
    using that by (simp add: parse_date_flex_order)
  show "ddmmyy [a, b, c, d, e, f] =
        Inr (date_iso (if 10 * digit_val e + digit_val f \<le> 69
                       then 2000 + (10 * digit_val e + digit_val f)
                       else 1900 + (10 * digit_val e + digit_val f))
               (10 * digit_val c + digit_val d) (10 * digit_val a + digit_val b))"
    if "list_all is_decimal [a, b, c, d, e, f]"
    using that by (rule ddmmyy_decimal)
  show "ddmmyy s2 = Inr None" if "length s2 \<noteq> 6 \<or> \<not> list_all is_digit s2"
    using that by (rule ddmmyy_other)
  show "date_iso y m dd = None" if "m = 0 \<or> 12 < m \<or> dd = 0 \<or> days_in_month y m < dd"
    using that by (rule date_iso_out_of_range)
  show "parse_date_flex tdt (Some ''150824'') = Inr (Some ''2024-08-15'')"
    if "tdt ''150824'' True = None \<and> tdt ''150824'' False = None"
    using that by (simp add: parse_date_flex_order strip_examples ddmmyy_examples)
  show "parse_date_flex tdt (Some ''1987-05-02'') = Inr (Some ''1987-05-02'')"
    if "tdt ''1987-05-02'' True = Some ''1987-05-02''"
    using that by (simp add: parse_date_flex_order strip_examples)
  show "parse_date_flex tdt (Some ''010170'') = Inr (Some ''1970-01-01'')"
    if "tdt ''010170'' True = None \<and> tdt ''010170'' False = None"
    using that by (simp add: parse_date_flex_order strip_examples ddmmyy_examples)
  show "parse_date_flex tdt (Some ''010169'') = Inr (Some ''2069-01-01'')"
    if "tdt ''010169'' True = None \<and> tdt ''010169'' False = None"
    using that by (simp add: parse_date_flex_order strip_examples ddmmyy_examples)
qed


lemma date_witness_values:
  "strip '' 1987-05-02'' = ''1987-05-02''"
  "strip ''03/04/24'' = ''03/04/24''"
  "strip ''15-08-24'' = ''15-08-24''"
  "strip_seps ''15-08-24'' = ''150824''"
  "list_all is_decimal ''150824''"
  "date_iso (if 10 * digit_val CHR ''2'' + digit_val CHR ''4'' \<le> 69
             then 2000 + (10 * digit_val CHR ''2'' + digit_val CHR ''4'')
             else 1900 + (10 * digit_val CHR ''2'' + digit_val CHR ''4''))
     (10 * digit_val CHR ''0'' + digit_val CHR ''8'') (10 * digit_val CHR ''1'' + digit_val CHR ''5'')
   = Some ''2024-08-15''"
  by code_simp+

theorem parse_date_flex_spec_witness:
  "parse_date_flex (\<lambda>s df. if s = ''1987-05-02'' then Some s else None) (Some '' 1987-05-02'')
     = Inr (Some ''1987-05-02'') \<and>
   parse_date_flex (\<lambda>s df. if s = ''1987-05-02'' then Some s else None) (Some ''1987-05-02'')
     = Inr (Some ''1987-05-02'') \<and>
   parse_date_flex (\<lambda>s df. if df then None else Some ''2024-03-04'') (Some ''03/04/24'')
     = Inr (Some ''2024-03-04'') \<and>
   parse_date_flex (\<lambda>s df. None) (Some ''15-08-24'') = Inr (Some ''2024-08-15'') \<and>
   ddmmyy ''12345'' = Inr None \<and>
   date_iso 2024 13 32 = None \<and>
   parse_date_flex (\<lambda>s df. None) (Some ''150824'') = Inr (Some ''2024-08-15'') \<and>
   parse_date_flex (\<lambda>s df. None) (Some ''010170'') = Inr (Some ''1970-01-01'') \<and>
   parse_date_flex (\<lambda>s df. None) (Some ''010169'') = Inr (Some ''2069-01-01'')"
proof -
  let ?t1 = "\<lambda>(s::string) (df::bool). if s = ''1987-05-02'' then Some s else None"
  let ?t2 = "\<lambda>(s::string) (df::bool). if df then None else Some ''2024-03-04''"
  let ?t0 = "\<lambda>(s::string) (df::bool). None :: string option"
  have a: "parse_date_flex ?t1 (Some '' 1987-05-02'') = Inr (Some ''1987-05-02'')"
    using parse_date_flex_spec[of ?t1 "'' 1987-05-02''" "''1987-05-02''"]
    by (simp add: date_witness_values)
  have b: "parse_date_flex ?t1 (Some ''1987-05-02'') = Inr (Some ''1987-05-02'')"
    using parse_date_flex_spec[of ?t1] by simp
  have c: "parse_date_flex ?t2 (Some ''03/04/24'') = Inr (Some ''2024-03-04'')"
    using parse_date_flex_spec[of ?t2 "''03/04/24''" _ "''2024-03-04''"]
    by (simp add: date_witness_values)
  have d: "parse_date_flex ?t0 (Some ''15-08-24'') = Inr (Some ''2024-08-15'')"
    using parse_date_flex_spec[of ?t0 "''15-08-24''" _ _
        "CHR ''1''" "CHR ''5''" "CHR ''0''" "CHR ''8''" "CHR ''2''" "CHR ''4''"]
    by (simp add: date_witness_values is_decimal_def)
  have e: "ddmmyy ''12345'' = Inr None"
    using parse_date_flex_spec[of ?t0 _ _ _ _ _ _ _ _ _ "''12345''"] by simp
  have f: "date_iso 2024 13 32 = None"
    using parse_date_flex_spec[of ?t0 _ _ _ _ _ _ _ _ _ _ 13 32 2024] by simp
  have g: "parse_date_flex ?t0 (Some ''150824'') = Inr (Some ''2024-08-15'')"
     "parse_date_flex ?t0 (Some ''010170'') = Inr (Some ''1970-01-01'')"
     "parse_date_flex ?t0 (Some ''010169'') = Inr (Some ''2069-01-01'')"
    using parse_date_flex_spec[of ?t0] by simp_all
  from a b c d e f g show ?thesis by (intro conjI)
qed


section \<open>Index-style columns\<close>

text \<open>
  Claim C8 does not hold for the loader. \<^verbatim>\<open>passthrough_cols\<close> leaves the index-style
  column out, but the loop over \<^verbatim>\<open>row.items()\<close> decides by \<^verbatim>\<open>inv.get\<close> alone: the cell
  of a column \<^verbatim>\<open>Sr No\<close> lands in \<open>extra\<close> under the key \<^verbatim>\<open>sr_no\<close>.
\<close>

theorem serial_column_in_extra:
  "''Sr No'' \<notin> passthrough_cols (map norm_col [''Sr No'', ''Emp Id'', ''Emp Name'']) \<and>
   (case build_records (\<lambda>s d. None)
           \<lparr>columns = [''Sr No'', ''Emp Id'', ''Emp Name''],
            data = [[Some ''1'', Some ''E1'', Some ''Alice'']]\<rparr> of
      Inl e \<Rightarrow> False
    | Inr recs \<Rightarrow> map (\<lambda>r. (empId r, name r, extra r ''sr_no'')) recs
                 = [(Some ''E1'', Some ''Alice'', Some ''1'')])"
proof -
  have "norm_col ''Sr No'' \<in> set ignore_cols" by code_simp
  then have "''Sr No'' \<notin> passthrough_cols (map norm_col [''Sr No'', ''Emp Id'', ''Emp Name''])"
    by (simp add: passthrough_cols_def)
  moreover have "(case build_records (\<lambda>s d. None)
           \<lparr>columns = [''Sr No'', ''Emp Id'', ''Emp Name''],
            data = [[Some ''1'', Some ''E1'', Some ''Alice'']]\<rparr> of
      Inl e \<Rightarrow> False
    | Inr recs \<Rightarrow> map (\<lambda>r. (empId r, name r, extra r ''sr_no'')) recs
                 = [(Some ''E1'', Some ''Alice'', Some ''1'')])"
    by code_simp
  ultimately show ?thesis ..
qed

section \<open>No valid rows\<close>

text \<open>
  Claim C9. On an empty list \<^verbatim>\<open>upsert\<close> prints its notice and returns before it opens a
  session: no statement reaches the store and the graph is as it was. And when the
  builder yields no record, \<^verbatim>\<open>main\<close> prints the notice and exits with code 0, again
  without a statement sent.
\<close>

theorem no_valid_rows:
  "upsert setup_fails g [] = \<lparr>printed = [NothingToImport], ran = [], result = Inr g\<rparr> \<and>
   (build_records tdt df = Inr [] \<longrightarrow>
      main tdt setup_fails (Inr df) g =
        \<lparr>exit_code = 0, out = [NoValidRowsFound], sent = [], final = g\<rparr>)"
  by (simp add: upsert_def main_def)

theorem no_valid_rows_witness:
  "build_records (\<lambda>s d. None)
      \<lparr>columns = [''Emp Id'', ''Emp Name''], data = [[Some ''E2'', None]]\<rparr> = Inr [] \<and>
   main (\<lambda>s d. None) {} (Inr \<lparr>columns = [''Emp Id'', ''Emp Name''], data = [[Some ''E2'', None]]\<rparr>)
       \<lparr>nodes = [], edges = []\<rparr> =
     \<lparr>exit_code = 0, out = [NoValidRowsFound], sent = [], final = \<lparr>nodes = [], edges = []\<rparr>\<rparr>"
proof -
  have "(case build_records (\<lambda>s d. None)
      \<lparr>columns = [''Emp Id'', ''Emp Name''], data = [[Some ''E2'', None]]\<rparr> of
        Inl e \<Rightarrow> False | Inr recs \<Rightarrow> length recs = 0)"
    by code_simp
  then have a: "build_records (\<lambda>s d. None)
      \<lparr>columns = [''Emp Id'', ''Emp Name''], data = [[Some ''E2'', None]]\<rparr> = Inr []"
    by (simp split: sum.splits)
  from a no_valid_rows[THEN conjunct2, THEN mp, OF a] show ?thesis ..
qed

section \<open>A passthrough column named like a canonical property\<close>

text \<open>
  Claim C10. The header \<^verbatim>\<open>name\<close> is no alias (the aliases are \<^verbatim>\<open>Emp Name\<close>,
  \<^verbatim>\<open>Employee Name\<close> and \<^verbatim>\<open>Name\<close>), so its cell goes to \<open>extra\<close> under the key \<^verbatim>\<open>name\<close>.
  The employee statement sets \<^verbatim>\<open>e.name\<close> from \<^verbatim>\<open>r.name\<close> first and applies
  \<^verbatim>\<open>e += r.extra\<close> last: the node, stored with the name Alice and sent with the name
  Alice, ends with the name Zed.
\<close>

theorem extra_overwrites_name:
  "inv_map (norm_col ''name'') = None \<and> snake (norm_col ''name'') = ''name'' \<and>
   (case build_records (\<lambda>s d. None)
           \<lparr>columns = [''Emp Id'', ''Emp Name'', ''name''],
            data = [[Some ''E1'', Some ''Alice'', Some ''Zed'']]\<rparr> of
      Inl e \<Rightarrow> False
    | Inr recs \<Rightarrow>
        map (\<lambda>r. (empId r, name r, extra r ''name'')) recs = [(Some ''E1'', Some ''Alice'', Some ''Zed'')] \<and>
        (case run_statements recs
                \<lparr>nodes = [\<lparr>nlabels = [''Employee''],
                            nprops = [''empId'' \<mapsto> VStr ''E1'', ''name'' \<mapsto> VStr ''Alice'']\<rparr>],
                 edges = []\<rparr> of
           Inl e \<Rightarrow> False
         | Inr g' \<Rightarrow> map (\<lambda>n. (nprops n ''empId'', nprops n ''name'')) (nodes g')
                      = [(Some (VStr ''E1''), Some (VStr ''Zed''))]))"
  by code_simp

text \<open>The same through \<^verbatim>\<open>upsert\<close>, with the three constraints in force.\<close>

lemma extra_overwrites_name_upsert:
  "(case build_records (\<lambda>s d. None)
           \<lparr>columns = [''Emp Id'', ''Emp Name'', ''name''],
            data = [[Some ''E1'', Some ''Alice'', Some ''Zed'']]\<rparr> of
      Inl e \<Rightarrow> False
    | Inr recs \<Rightarrow>
        (case result (upsert {} alice_graph recs) of
           Inl e \<Rightarrow> False
         | Inr g' \<Rightarrow> map (\<lambda>n. (nprops n ''empId'', nprops n ''name'')) (nodes g')
                      = [(Some (VStr ''E1''), Some (VStr ''Zed''))]))"
  by code_simp

section \<open>Matching and merging\<close>

lemma set_find_idx: "set (find_idx P xs) = {i. i < length xs \<and> P (xs ! i)}"
  by (auto simp: find_idx_def)

lemma distinct_find_idx: "distinct (find_idx P xs)"
  by (simp add: find_idx_def)

lemma find_idx_Nil_iff: "find_idx P xs = [] \<longleftrightarrow> (\<forall>x\<in>set xs. \<not> P x)"
  unfolding find_idx_def filter_empty_conv
  by (metis atLeastLessThan_iff in_set_conv_nth set_upt zero_le)

lemma find_idx_append:
  "find_idx P (xs @ ys) = find_idx P xs @ map (\<lambda>i. i + length xs) (find_idx P ys)"
proof -
  let ?Q = "\<lambda>i. P ((xs @ ys) ! i)"
  have u: "[0..<length (xs @ ys)] = [0..<length xs] @ map (\<lambda>i. i + length xs) [0..<length ys]"
    unfolding map_add_upt using upt_add_eq_append[of 0 "length xs" "length ys"]
    by (simp add: add.commute)
  have l: "filter ?Q [0..<length xs] = find_idx P xs"
    unfolding find_idx_def by (rule filter_cong) (auto simp: nth_append)
  have "filter ?Q (map (\<lambda>i. i + length xs) [0..<length ys])
      = map (\<lambda>i. i + length xs) (filter (?Q \<circ> (\<lambda>i. i + length xs)) [0..<length ys])"
    by (rule filter_map)
  also have "filter (?Q \<circ> (\<lambda>i. i + length xs)) [0..<length ys] = find_idx P ys"
    unfolding find_idx_def by (rule filter_cong) (auto simp: nth_append)
  finally have r: "filter ?Q (map (\<lambda>i. i + length xs) [0..<length ys])
      = map (\<lambda>i. i + length xs) (find_idx P ys)" .
  have "find_idx P (xs @ ys) = filter ?Q [0..<length (xs @ ys)]"
    by (simp only: find_idx_def)
  also have "\<dots> = filter ?Q [0..<length xs] @ filter ?Q (map (\<lambda>i. i + length xs) [0..<length ys])"
    unfolding u by (rule filter_append)
  finally show ?thesis
    unfolding l r .
qed

lemma find_idx_append_none:
  "\<forall>y\<in>set ys. \<not> P y \<Longrightarrow> find_idx P (xs @ ys) = find_idx P xs"
  by (simp add: find_idx_append find_idx_Nil_iff)

lemma find_idx_single: "P x \<Longrightarrow> find_idx P (xs @ [x]) = find_idx P xs @ [length xs]"
  by (simp add: find_idx_append) (simp add: find_idx_def)

lemma find_idx_cong: "(\<And>x. x \<in> set xs \<Longrightarrow> P x = Q x) \<Longrightarrow> find_idx P xs = find_idx Q xs"
  unfolding find_idx_def by (rule filter_cong) auto

lemma match_nodes_find_idx: "match_nodes l k v g = find_idx (node_matches l k v) (nodes g)"
  by (simp add: match_nodes_def find_idx_def)

lemma match_edges_find_idx: "match_edges s ty req d g = find_idx (edge_matches s ty req d) (edges g)"
  by (simp add: match_edges_def find_idx_def)

lemma bind_rows_Nil [simp]: "bind_rows f [] = []"
  by (simp add: bind_rows_def)

lemma bind_rows_Cons [simp]: "bind_rows f (a # tbl) = map (Pair a) (f a) @ bind_rows f tbl"
  by (simp add: bind_rows_def)

lemma bind_rows_cong: "(\<And>a. a \<in> set tbl \<Longrightarrow> f a = h a) \<Longrightarrow> bind_rows f tbl = bind_rows h tbl"
  by (induction tbl) auto

lemma set_bind_rows: "set (bind_rows f tbl) = {(a, b). a \<in> set tbl \<and> b \<in> set (f a)}"
  by (induction tbl) auto

text \<open>What a \<^verbatim>\<open>MERGE\<close> clause leaves, when a created element matches its own pattern and
  no other pattern of the table that differs from it.\<close>

lemma merge_all_result:
  assumes c1: "\<And>a. M a (mk a)"
      and c2: "\<And>a a' x. M a (mk a') \<Longrightarrow> M a' x = M a x"
  shows "merge_all M mk tbl xs = (xs', t) \<Longrightarrow>
    (\<exists>news. xs' = xs @ news \<and>
        (\<forall>n\<in>set news. \<exists>a\<in>set tbl. n = mk a \<and> (\<forall>x\<in>set xs. \<not> M a x))) \<and>
    (\<forall>a\<in>set tbl. \<exists>x\<in>set xs'. M a x) \<and>
    t = bind_rows (\<lambda>a. find_idx (M a) xs') tbl"
proof (induction tbl arbitrary: xs xs' t)
  case Nil
  then show ?case by simp
next
  case (Cons a tbl)
  let ?ms = "find_idx (M a) xs"
  let ?xs1 = "if ?ms = [] then xs @ [mk a] else xs"
  let ?bs = "if ?ms = [] then [length xs] else ?ms"
  obtain xs2 rest where r: "merge_all M mk tbl ?xs1 = (xs2, rest)"
    by (cases "merge_all M mk tbl ?xs1") auto
  from Cons.prems r have eq: "xs' = xs2" "t = map (Pair a) ?bs @ rest"
    by (auto simp: Let_def)
  from Cons.IH[OF r] obtain news where
    n1: "xs2 = ?xs1 @ news"
    and n2: "\<forall>n\<in>set news. \<exists>a'\<in>set tbl. n = mk a' \<and> (\<forall>x\<in>set ?xs1. \<not> M a' x)"
    and n3: "\<forall>a'\<in>set tbl. \<exists>x\<in>set xs2. M a' x"
    and n4: "rest = bind_rows (\<lambda>a. find_idx (M a) xs2) tbl"
    by blast
  have here: "\<exists>x\<in>set ?xs1. M a x"
    using c1 by (auto simp: find_idx_Nil_iff)
  have bs: "find_idx (M a) ?xs1 = ?bs"
    using c1 by (auto simp: find_idx_single)
  have nonew: "\<forall>n\<in>set news. \<not> M a n"
  proof
    fix n assume "n \<in> set news"
    with n2 obtain a' where a': "n = mk a'" "\<forall>x\<in>set ?xs1. \<not> M a' x" by blast
    show "\<not> M a n"
    proof
      assume "M a n"
      with a' have "\<And>x. M a' x = M a x" using c2 by blast
      with here a'(2) show False by blast
    qed
  qed
  have t1: "find_idx (M a) xs2 = ?bs"
    using n1 nonew bs by (simp add: find_idx_append_none)
  have p1: "\<exists>news'. xs2 = xs @ news' \<and>
        (\<forall>n\<in>set news'. \<exists>a'\<in>set (a # tbl). n = mk a' \<and> (\<forall>x\<in>set xs. \<not> M a' x))"
  proof (cases "?ms = []")
    case True
    then have "xs2 = xs @ (mk a # news)" using n1 by simp
    moreover have "\<forall>n\<in>set (mk a # news). \<exists>a'\<in>set (a # tbl). n = mk a' \<and> (\<forall>x\<in>set xs. \<not> M a' x)"
      using True n2 by (auto simp: find_idx_Nil_iff)
    ultimately show ?thesis by blast
  next
    case False
    then have "xs2 = xs @ news" using n1 by simp
    moreover have "\<forall>n\<in>set news. \<exists>a'\<in>set (a # tbl). n = mk a' \<and> (\<forall>x\<in>set xs. \<not> M a' x)"
      using False n2 by auto
    ultimately show ?thesis by blast
  qed
  have p2: "\<forall>a'\<in>set (a # tbl). \<exists>x\<in>set xs2. M a' x"
    using n3 here n1 by auto
  have p3: "map (Pair a) ?bs @ rest = bind_rows (\<lambda>a. find_idx (M a) xs2) (a # tbl)"
    using t1 n4 by simp
  show ?case
    unfolding eq using p1 p2 p3 by blast
qed


lemma upd_node_id: "upd_node i id g = g"
  by (simp add: upd_node_def)

lemma fold_const_id: "fold (\<lambda>i h. h) ms g = g"
  by (induction ms) auto

lemma fold_upd_node_id: "fold (\<lambda>i. upd_node i id) ms g = g"
proof -
  have "(\<lambda>i. upd_node i id) = (\<lambda>i h. h)"
    by (intro ext) (rule upd_node_id)
  then show ?thesis by (simp only: fold_const_id)
qed

lemma merge_node_plain:
  "merge_node l k v oc id g =
    (let ms = find_idx (node_matches l k v) (nodes g) in
     (g\<lparr>nodes := (if ms = [] then nodes g @ [\<lparr>nlabels = [l], nprops = oc [k \<mapsto> VStr v]\<rparr>] else nodes g)\<rparr>,
      if ms = [] then [length (nodes g)] else ms))"
  unfolding merge_node_def match_nodes_find_idx fold_upd_node_id
  by (simp add: Let_def)

lemma clause_merge_nodes_gen:
  assumes "\<And>a g. F a g =
    (let ms = find_idx (M a) (nodes g) in
     (g\<lparr>nodes := (if ms = [] then nodes g @ [mk a] else nodes g)\<rparr>,
      if ms = [] then [length (nodes g)] else ms))"
  shows "clause F tbl g =
    (case merge_all M mk tbl (nodes g) of (ns, t) \<Rightarrow> (g\<lparr>nodes := ns\<rparr>, t))"
proof (induction tbl arbitrary: g)
  case Nil
  then show ?case by simp
next
  case (Cons a tbl)
  obtain g1 bs where f: "F a g = (g1, bs)"
    by (cases "F a g")
  let ?ms = "find_idx (M a) (nodes g)"
  from f assms[of a g]
  have g1: "g1 = g\<lparr>nodes := (if ?ms = [] then nodes g @ [mk a] else nodes g)\<rparr>"
    and bs: "bs = (if ?ms = [] then [length (nodes g)] else ?ms)"
    by (simp_all add: Let_def)
  obtain xs2 rest where r: "merge_all M mk tbl (nodes g1) = (xs2, rest)"
    by (cases "merge_all M mk tbl (nodes g1)")
  have c: "clause F tbl g1 = (g1\<lparr>nodes := xs2\<rparr>, rest)"
    using Cons.IH[of g1] r by simp
  have a1: "clause F (a # tbl) g = (g1\<lparr>nodes := xs2\<rparr>, map (Pair a) bs @ rest)"
    using f c by simp
  have r': "merge_all M mk tbl (if ?ms = [] then nodes g @ [mk a] else nodes g) = (xs2, rest)"
    using r g1 by simp
  have a2: "merge_all M mk (a # tbl) (nodes g) = (xs2, map (Pair a) bs @ rest)"
    using r' bs by (simp add: Let_def)
  have a3: "g1\<lparr>nodes := xs2\<rparr> = g\<lparr>nodes := xs2\<rparr>"
    using g1 by simp
  show ?case
    unfolding a1 a2 a3 by simp
qed

lemma clause_merge_node:
  "clause (\<lambda>a. merge_node l k (nm a) (oc a) id) tbl g =
    (case merge_all (\<lambda>a. node_matches l k (nm a))
            (\<lambda>a. \<lparr>nlabels = [l], nprops = oc a [k \<mapsto> VStr (nm a)]\<rparr>) tbl (nodes g) of
       (ns, t) \<Rightarrow> (g\<lparr>nodes := ns\<rparr>, t))"
  by (rule clause_merge_nodes_gen) (rule merge_node_plain)

lemma merge_edge_plain:
  "merge_edge s ty req d g =
    (let ms = find_idx (edge_matches s ty req d) (edges g) in
     (g\<lparr>edges := (if ms = [] then edges g @ [\<lparr>esrc = s, edst = d, etype = ty, eprops = map_of req\<rparr>]
                   else edges g)\<rparr>,
      if ms = [] then [length (edges g)] else ms))"
  by (simp add: merge_edge_def match_edges_find_idx Let_def)

lemma clause_merge_edges_gen:
  assumes "\<And>a g. F a g =
    (let ms = find_idx (M a) (edges g) in
     (g\<lparr>edges := (if ms = [] then edges g @ [mk a] else edges g)\<rparr>,
      if ms = [] then [length (edges g)] else ms))"
  shows "clause F tbl g =
    (case merge_all M mk tbl (edges g) of (es, t) \<Rightarrow> (g\<lparr>edges := es\<rparr>, t))"
proof (induction tbl arbitrary: g)
  case Nil
  then show ?case by simp
next
  case (Cons a tbl)
  obtain g1 bs where f: "F a g = (g1, bs)"
    by (cases "F a g")
  let ?ms = "find_idx (M a) (edges g)"
  from f assms[of a g]
  have g1: "g1 = g\<lparr>edges := (if ?ms = [] then edges g @ [mk a] else edges g)\<rparr>"
    and bs: "bs = (if ?ms = [] then [length (edges g)] else ?ms)"
    by (simp_all add: Let_def)
  obtain xs2 rest where r: "merge_all M mk tbl (edges g1) = (xs2, rest)"
    by (cases "merge_all M mk tbl (edges g1)")
  have c: "clause F tbl g1 = (g1\<lparr>edges := xs2\<rparr>, rest)"
    using Cons.IH[of g1] r by simp
  have a1: "clause F (a # tbl) g = (g1\<lparr>edges := xs2\<rparr>, map (Pair a) bs @ rest)"
    using f c by simp
  have r': "merge_all M mk tbl (if ?ms = [] then edges g @ [mk a] else edges g) = (xs2, rest)"
    using r g1 by simp
  have a2: "merge_all M mk (a # tbl) (edges g) = (xs2, map (Pair a) bs @ rest)"
    using r' bs by (simp add: Let_def)
  have a3: "g1\<lparr>edges := xs2\<rparr> = g\<lparr>edges := xs2\<rparr>"
    using g1 by simp
  show ?case
    unfolding a1 a2 a3 by simp
qed

lemma clause_merge_edge:
  "clause (\<lambda>a. merge_edge (s a) ty req (d a)) tbl g =
    (case merge_all (\<lambda>a. edge_matches (s a) ty req (d a))
            (\<lambda>a. \<lparr>esrc = s a, edst = d a, etype = ty, eprops = map_of req\<rparr>) tbl (edges g) of
       (es, t) \<Rightarrow> (g\<lparr>edges := es\<rparr>, t))"
  by (rule clause_merge_edges_gen) (rule merge_edge_plain)


section \<open>The employee statement, node by node\<close>

lemma node_matches_emp: "node_matches ''Employee'' ''empId'' k n \<longleftrightarrow> emp_key n = Some k"
  by (auto simp: node_matches_def emp_key_def split: option.splits pval.splits)

lemma node_matches_emp_fun: "node_matches ''Employee'' ''empId'' k = (\<lambda>n. emp_key n = Some k)"
  by (rule ext) (rule node_matches_emp)

lemma match_emp_find_idx:
  "empId r = Some k \<Longrightarrow> match_emp r g = find_idx (\<lambda>n. emp_key n = Some k) (nodes g)"
  by (simp add: match_emp_def match_nodes_find_idx node_matches_emp_fun)

lemma match_emp_None: "empId r = None \<Longrightarrow> match_emp r g = []"
  by (simp add: match_emp_def)

lemma find_idx_map: "find_idx P (map f xs) = find_idx (P \<circ> f) xs"
  unfolding find_idx_def by (rule filter_cong) auto

lemma edges_upd_node [simp]: "edges (upd_node i f g) = edges g"
  by (simp add: upd_node_def)

lemma length_nodes_upd_node [simp]: "length (nodes (upd_node i f g)) = length (nodes g)"
  by (simp add: upd_node_def)

lemma nodes_upd_node_nth:
  "j < length (nodes g) \<Longrightarrow>
   nodes (upd_node i f g) ! j =
     (if j = i then (nodes g ! j)\<lparr>nprops := f (nprops (nodes g ! j))\<rparr> else nodes g ! j)"
  by (simp add: upd_node_def nth_list_update)

lemma fold_upd_node_frame:
  "edges (fold (\<lambda>i. upd_node i f) is g) = edges g \<and>
   length (nodes (fold (\<lambda>i. upd_node i f) is g)) = length (nodes g)"
  by (induction "is" arbitrary: g) auto

lemma fold_upd_node_nth:
  "distinct is \<Longrightarrow> j < length (nodes g) \<Longrightarrow>
   nodes (fold (\<lambda>i. upd_node i f) is g) ! j =
     (if j \<in> set is then (nodes g ! j)\<lparr>nprops := f (nprops (nodes g ! j))\<rparr> else nodes g ! j)"
proof (induction "is" arbitrary: g)
  case Nil
  then show ?case by simp
next
  case (Cons i "is")
  have d: "distinct is" and ni: "i \<notin> set is" using Cons.prems by auto
  have l: "j < length (nodes (upd_node i f g))" using Cons.prems by simp
  show ?case
    using Cons.IH[OF d l] ni Cons.prems(2)
    by (auto simp: nodes_upd_node_nth)
qed

lemma fold_upd_node_where:
  "fold (\<lambda>i. upd_node i f) (find_idx Q (nodes g)) g =
   g\<lparr>nodes := map (\<lambda>n. if Q n then n\<lparr>nprops := f (nprops n)\<rparr> else n) (nodes g)\<rparr>"
proof -
  let ?h = "fold (\<lambda>i. upd_node i f) (find_idx Q (nodes g)) g"
  have e: "edges ?h = edges g" and l: "length (nodes ?h) = length (nodes g)"
    using fold_upd_node_frame[of f "find_idx Q (nodes g)" g] by auto
  have "nodes ?h = map (\<lambda>n. if Q n then n\<lparr>nprops := f (nprops n)\<rparr> else n) (nodes g)"
  proof (rule nth_equalityI)
    show "length (nodes ?h) = length (map (\<lambda>n. if Q n then n\<lparr>nprops := f (nprops n)\<rparr> else n) (nodes g))"
      using l by simp
  next
    fix j assume "j < length (nodes ?h)"
    then have j: "j < length (nodes g)" using l by simp
    show "nodes ?h ! j = map (\<lambda>n. if Q n then n\<lparr>nprops := f (nprops n)\<rparr> else n) (nodes g) ! j"
      using fold_upd_node_nth[OF distinct_find_idx j, of f Q "nodes g"] j
      by (simp add: set_find_idx)
  qed
  with e show ?thesis by (intro graph.equality) simp_all
qed

lemma emp_key_name_props:
  "p' ''empId'' = nprops n ''empId'' \<Longrightarrow> emp_key (n\<lparr>nprops := p'\<rparr>) = emp_key n"
  by (simp add: emp_key_def)

lemma coalesce_name_empId [simp]: "coalesce_name r p ''empId'' = p ''empId''"
  by (simp add: coalesce_name_def split: option.splits)

lemma fold_coalesce_name_empId [simp]: "fold coalesce_name rs p ''empId'' = p ''empId''"
  by (induction rs arbitrary: p) auto

lemma emp_key_coalesce_step [simp]: "emp_key (coalesce_step r n) = emp_key n"
  by (simp add: coalesce_step_def emp_key_name_props)

lemma emp_key_coalesce_update [simp]: "emp_key (coalesce_update rows n) = emp_key n"
  by (simp add: coalesce_update_def emp_key_name_props split: option.splits)

lemma emp_key_fresh [simp]: "emp_key (fresh_emp k) = Some k"
  by (simp add: fresh_emp_def emp_key_def)

lemma coalesce_update_Nil [simp]: "coalesce_update [] n = n"
  by (simp add: coalesce_update_def rows_for_def split: option.splits)

lemma coalesce_update_Cons:
  "empId r \<noteq> None \<Longrightarrow> coalesce_update (r # rows) n = coalesce_update rows (coalesce_step r n)"
  by (cases "emp_key n")
     (auto simp: coalesce_update_def coalesce_step_def rows_for_def emp_key_name_props)

text \<open>One row of the \<^verbatim>\<open>MERGE\<close> clause of the employee statement.\<close>

lemma create_name_fresh:
  "\<lparr>nlabels = [''Employee''], nprops = create_name r [''empId'' \<mapsto> VStr k]\<rparr>
     = (fresh_emp k)\<lparr>nprops := coalesce_name r (nprops (fresh_emp k))\<rparr>"
  by (auto simp: create_name_def coalesce_name_def fresh_emp_def fun_eq_iff split: option.splits)

lemma merge_emp_row:
  assumes k: "empId r = Some k"
  shows "merge_node ''Employee'' ''empId'' k (create_name r) (coalesce_name r) g =
    (g\<lparr>nodes := map (coalesce_step r)
         (nodes g @ (if find_idx (\<lambda>n. emp_key n = Some k) (nodes g) = [] then [fresh_emp k] else []))\<rparr>,
     find_idx (\<lambda>n. emp_key n = Some k)
       (map (coalesce_step r)
         (nodes g @ (if find_idx (\<lambda>n. emp_key n = Some k) (nodes g) = [] then [fresh_emp k] else []))))"
proof -
  let ?Q = "\<lambda>n. emp_key n = Some k"
  have m: "match_nodes ''Employee'' ''empId'' k g = find_idx ?Q (nodes g)"
    by (simp add: match_nodes_find_idx node_matches_emp_fun)
  have ns: "\<And>n. \<not> ?Q n \<Longrightarrow> coalesce_step r n = n"
    using k by (simp add: coalesce_step_def)
  have keep: "\<And>xs. find_idx ?Q (map (coalesce_step r) xs) = find_idx ?Q xs"
    by (simp add: find_idx_map o_def)
  show ?thesis
  proof (cases "find_idx ?Q (nodes g) = []")
    case True
    then have none: "\<forall>n\<in>set (nodes g). \<not> ?Q n" by (simp add: find_idx_Nil_iff)
    have a: "map (coalesce_step r) (nodes g) = nodes g"
      using none ns by (simp add: map_idI)
    have b: "coalesce_step r (fresh_emp k)
        = \<lparr>nlabels = [''Employee''], nprops = create_name r [''empId'' \<mapsto> VStr k]\<rparr>"
      using k by (simp add: coalesce_step_def create_name_fresh)
    have c: "find_idx ?Q (nodes g @ [fresh_emp k]) = [length (nodes g)]"
      using True by (simp add: find_idx_single)
    show ?thesis
      unfolding merge_node_def m keep using True a b c by (simp add: Let_def)
  next
    case False
    have a: "map (coalesce_step r) (nodes g)
        = map (\<lambda>n. if ?Q n then n\<lparr>nprops := coalesce_name r (nprops n)\<rparr> else n) (nodes g)"
      using k by (simp add: coalesce_step_def)
    show ?thesis
      unfolding merge_node_def m keep using False
      by (simp add: Let_def fold_upd_node_where a)
  qed
qed


text \<open>The \<^verbatim>\<open>MERGE\<close> clause of the employee statement over the whole batch.\<close>

lemma merge_emp_clause:
  assumes "\<forall>r\<in>set rows. empId r \<noteq> None"
      and "clause (\<lambda>r. merge_node ''Employee'' ''empId'' (the (empId r))
                        (create_name r) (coalesce_name r)) rows g = (g1, T)"
  shows "\<exists>nk. nodes g1 = map (coalesce_update rows) (nodes g @ map fresh_emp nk) \<and>
          edges g1 = edges g \<and>
          set nk \<subseteq> row_keys rows \<and>
          (\<forall>k\<in>set nk. \<forall>n\<in>set (nodes g). emp_key n \<noteq> Some k) \<and>
          T = bind_rows (\<lambda>r. match_emp r g1) rows \<and>
          (\<forall>r\<in>set rows. match_emp r g1 \<noteq> [])"
  using assms
proof (induction rows arbitrary: g g1 T)
  case Nil
  then show ?case by (auto intro: exI[of _ "[]"])
next
  case (Cons r rows)
  let ?F = "\<lambda>r. merge_node ''Employee'' ''empId'' (the (empId r)) (create_name r) (coalesce_name r)"
  from Cons.prems(1) obtain k where k: "empId r = Some k" by auto
  let ?Q = "\<lambda>n. emp_key n = Some k"
  let ?c = "if find_idx ?Q (nodes g) = [] then [k] else []"
  let ?hn = "map (coalesce_step r) (nodes g @ map fresh_emp ?c)"
  let ?h = "g\<lparr>nodes := ?hn\<rparr>"
  have step: "?F r g = (?h, find_idx ?Q ?hn)"
    using merge_emp_row[OF k, of g] k by (auto split: if_splits)
  obtain g2 rest where cl: "clause ?F rows ?h = (g2, rest)"
    by (cases "clause ?F rows ?h")
  have "clause ?F (r # rows) g = (g2, map (Pair r) (find_idx ?Q ?hn) @ rest)"
    unfolding clause.simps step using cl by simp
  with Cons.prems(2) have g1: "g1 = g2" and T: "T = map (Pair r) (find_idx ?Q ?hn) @ rest"
    by simp_all
  from Cons.prems(1) have ne: "\<forall>r\<in>set rows. empId r \<noteq> None" by simp
  from Cons.IH[OF ne cl] obtain nk where
    n1: "nodes g2 = map (coalesce_update rows) (nodes ?h @ map fresh_emp nk)"
    and n2: "edges g2 = edges ?h"
    and n3: "set nk \<subseteq> row_keys rows"
    and n4: "\<forall>k'\<in>set nk. \<forall>n\<in>set (nodes ?h). emp_key n \<noteq> Some k'"
    and n5: "rest = bind_rows (\<lambda>r. match_emp r g2) rows"
    and n6: "\<forall>r\<in>set rows. match_emp r g2 \<noteq> []"
    by blast
  have present: "\<exists>n\<in>set ?hn. ?Q n"
  proof (cases "find_idx ?Q (nodes g) = []")
    case True
    then show ?thesis by simp
  next
    case False
    then obtain n where "n \<in> set (nodes g)" "?Q n" by (auto simp: find_idx_Nil_iff)
    then show ?thesis by (auto intro!: bexI[of _ "coalesce_step r n"])
  qed
  have knk: "k \<notin> set nk"
    using n4 present by auto
  have fresh_same: "map (coalesce_step r) (map fresh_emp nk) = map fresh_emp nk"
    using knk k by (auto simp: coalesce_step_def)
  have nodes: "nodes g2 = map (coalesce_update (r # rows)) (nodes g @ map fresh_emp (?c @ nk))"
  proof -
    have "nodes g2 = map (coalesce_update rows) (map (coalesce_step r) (nodes g @ map fresh_emp (?c @ nk)))"
      using n1 fresh_same by simp
    also have "\<dots> = map (coalesce_update (r # rows)) (nodes g @ map fresh_emp (?c @ nk))"
      using k by (simp add: coalesce_update_Cons o_def)
    finally show ?thesis .
  qed
  have sub: "set (?c @ nk) \<subseteq> row_keys (r # rows)"
    using n3 k by (auto simp: row_keys_def)
  have absent: "\<forall>k'\<in>set (?c @ nk). \<forall>n\<in>set (nodes g). emp_key n \<noteq> Some k'"
  proof (intro ballI)
    fix k' n assume k': "k' \<in> set (?c @ nk)" and n: "n \<in> set (nodes g)"
    show "emp_key n \<noteq> Some k'"
    proof (cases "k' \<in> set nk")
      case True
      have "coalesce_step r n \<in> set (nodes ?h)" using n by simp
      with n4 True have "emp_key (coalesce_step r n) \<noteq> Some k'" by blast
      then show ?thesis by simp
    next
      case False
      with k' have "k' = k" "find_idx ?Q (nodes g) = []" by (auto split: if_splits)
      then show ?thesis using n by (auto simp: find_idx_Nil_iff)
    qed
  qed
  have m_r: "match_emp r g2 = find_idx ?Q ?hn"
  proof -
    have "match_emp r g2 = find_idx ?Q (nodes g2)"
      by (rule match_emp_find_idx[OF k])
    also have "\<dots> = find_idx ?Q (map (coalesce_update rows) (nodes ?h @ map fresh_emp nk))"
      by (simp only: n1)
    also have "\<dots> = find_idx (?Q \<circ> coalesce_update rows) (nodes ?h @ map fresh_emp nk)"
      by (rule find_idx_map)
    also have "\<dots> = find_idx ?Q (nodes ?h @ map fresh_emp nk)"
      by (rule find_idx_cong) simp
    also have "\<dots> = find_idx ?Q (nodes ?h)"
      using knk by (intro find_idx_append_none) auto
    also have "nodes ?h = ?hn" by simp
    finally show ?thesis .
  qed
  have tbl: "T = bind_rows (\<lambda>r. match_emp r g2) (r # rows)"
    unfolding bind_rows_Cons T n5 m_r by (rule refl)
  have mr: "match_emp r g2 \<noteq> []"
    unfolding m_r using present by (simp add: find_idx_Nil_iff)
  have all: "\<forall>r'\<in>set (r # rows). match_emp r' g2 \<noteq> []"
    using n6 mr by simp
  have e: "edges g2 = edges g"
    using n2 by simp
  show ?case
    unfolding g1
    by (rule exI[of _ "?c @ nk"]) (intro conjI nodes e sub absent tbl all)
qed

text \<open>A \<^verbatim>\<open>SET\<close> clause over a table whose rows were bound before the clause began.\<close>

lemma fold_pair_upd:
  "fold (\<lambda>re. upd_node (snd re) (u (fst re))) (map (Pair r) is) g = fold (\<lambda>i. upd_node i (u r)) is g"
  by (induction "is" arbitrary: g) auto

lemma set_clause_nth:
  assumes "\<forall>r\<in>set rows. distinct (ix r)"
  shows "edges (fold (\<lambda>re. upd_node (snd re) (u (fst re))) (bind_rows ix rows) g) = edges g \<and>
     length (nodes (fold (\<lambda>re. upd_node (snd re) (u (fst re))) (bind_rows ix rows) g)) = length (nodes g) \<and>
     (\<forall>j<length (nodes g).
        nodes (fold (\<lambda>re. upd_node (snd re) (u (fst re))) (bind_rows ix rows) g) ! j =
        (nodes g ! j)\<lparr>nprops := fold u (filter (\<lambda>r. j \<in> set (ix r)) rows) (nprops (nodes g ! j))\<rparr>)"
  using assms
proof (induction rows arbitrary: g)
  case Nil
  then show ?case by simp
next
  case (Cons r rows)
  let ?U = "\<lambda>re. upd_node (snd re) (u (fst re))"
  let ?g1 = "fold (\<lambda>i. upd_node i (u r)) (ix r) g"
  have f: "fold ?U (bind_rows ix (r # rows)) g = fold ?U (bind_rows ix rows) ?g1"
    by (simp add: fold_pair_upd)
  have fr: "edges ?g1 = edges g" "length (nodes ?g1) = length (nodes g)"
    using fold_upd_node_frame[of "u r" "ix r" g] by auto
  have d: "distinct (ix r)" and ds: "\<forall>r\<in>set rows. distinct (ix r)"
    using Cons.prems by auto
  note IH = Cons.IH[OF ds, of ?g1]
  show ?case
  proof (intro conjI allI impI)
    show "edges (fold ?U (bind_rows ix (r # rows)) g) = edges g"
      unfolding f using IH fr by simp
    show "length (nodes (fold ?U (bind_rows ix (r # rows)) g)) = length (nodes g)"
      unfolding f using IH fr by simp
  next
    fix j assume j: "j < length (nodes g)"
    then have j1: "j < length (nodes ?g1)" using fr by simp
    have a: "nodes ?g1 ! j =
        (if j \<in> set (ix r) then (nodes g ! j)\<lparr>nprops := u r (nprops (nodes g ! j))\<rparr> else nodes g ! j)"
      by (rule fold_upd_node_nth[OF d j])
    from IH j1 have "nodes (fold ?U (bind_rows ix rows) ?g1) ! j =
        (nodes ?g1 ! j)\<lparr>nprops := fold u (filter (\<lambda>r. j \<in> set (ix r)) rows) (nprops (nodes ?g1 ! j))\<rparr>"
      by blast
    then show "nodes (fold ?U (bind_rows ix (r # rows)) g) ! j =
        (nodes g ! j)\<lparr>nprops := fold u (filter (\<lambda>r. j \<in> set (ix r)) (r # rows)) (nprops (nodes g ! j))\<rparr>"
      unfolding f a by simp
  qed
qed

lemma distinct_match_emp: "distinct (match_emp r g)"
  by (simp add: match_emp_def match_nodes_find_idx distinct_find_idx split: option.splits)

lemma mem_match_emp:
  "j < length (nodes g) \<Longrightarrow> j \<in> set (match_emp r g) \<longleftrightarrow> (empId r \<noteq> None \<and> emp_key (nodes g ! j) = empId r)"
  by (cases "empId r") (auto simp: match_emp_None match_emp_find_idx set_find_idx)

lemma emp_set_clause:
  "fold (\<lambda>(r, e). upd_node e (emp_set r)) (bind_rows (\<lambda>r. match_emp r g) rows) g =
   g\<lparr>nodes := map (set_update rows) (nodes g)\<rparr>"
proof -
  let ?U = "\<lambda>re. upd_node (snd re) (emp_set (fst re))"
  let ?T = "bind_rows (\<lambda>r. match_emp r g) rows"
  have U: "(\<lambda>(r, e). upd_node e (emp_set r)) = ?U"
    by (simp add: fun_eq_iff)
  note S = set_clause_nth[of rows "\<lambda>r. match_emp r g" emp_set g, simplified distinct_match_emp, simplified]
  have n: "nodes (fold ?U ?T g) = map (set_update rows) (nodes g)"
  proof (rule nth_equalityI)
    show "length (nodes (fold ?U ?T g)) = length (map (set_update rows) (nodes g))"
      using S by simp
  next
    fix j assume "j < length (nodes (fold ?U ?T g))"
    then have j: "j < length (nodes g)" using S by simp
    have flt: "filter (\<lambda>r. j \<in> set (match_emp r g)) rows =
        (case emp_key (nodes g ! j) of None \<Rightarrow> [] | Some k \<Rightarrow> rows_for k rows)"
    proof (cases "emp_key (nodes g ! j)")
      case None
      then have "\<And>r. j \<notin> set (match_emp r g)"
        by (auto simp: mem_match_emp[OF j])
      then show ?thesis using None by simp
    next
      case (Some k)
      then have "\<And>r. j \<in> set (match_emp r g) \<longleftrightarrow> empId r = Some k"
        by (auto simp: mem_match_emp[OF j])
      then show ?thesis using Some by (simp add: rows_for_def)
    qed
    from S j have "nodes (fold ?U ?T g) ! j =
        (nodes g ! j)\<lparr>nprops := fold emp_set (filter (\<lambda>r. j \<in> set (match_emp r g)) rows) (nprops (nodes g ! j))\<rparr>"
      by blast
    then show "nodes (fold ?U ?T g) ! j = map (set_update rows) (nodes g) ! j"
      using j unfolding flt by (simp add: set_update_def split: option.splits)
  qed
  have "edges (fold ?U ?T g) = edges g" using S by simp
  with n show ?thesis unfolding U by (intro graph.equality) simp_all
qed

lemma emp_update_split: "emp_update rows n = set_update rows (coalesce_update rows n)"
  by (cases "emp_key n")
     (simp_all add: emp_update_def set_update_def coalesce_update_def emp_key_name_props)

text \<open>
  The employee statement as a whole: every node gets the updates of the rows with its
  key, and the keys of the batch that no employee of the graph has get a new node each.
\<close>

lemma employees_stmt_closed:
  assumes "\<forall>r\<in>set rows. empId r \<noteq> None"
  shows "\<exists>nk. employees_stmt rows g =
            Inr \<lparr>nodes = map (emp_update rows) (nodes g @ map fresh_emp nk), edges = edges g\<rparr> \<and>
          set nk \<subseteq> row_keys rows \<and>
          (\<forall>k\<in>set nk. \<forall>n\<in>set (nodes g). emp_key n \<noteq> Some k) \<and>
          (\<forall>k\<in>row_keys rows. \<exists>n\<in>set (nodes g @ map fresh_emp nk). emp_key n = Some k)"
proof -
  let ?F = "\<lambda>r. merge_node ''Employee'' ''empId'' (the (empId r)) (create_name r) (coalesce_name r)"
  obtain g1 T where cl: "clause ?F rows g = (g1, T)"
    by (cases "clause ?F rows g")
  from merge_emp_clause[OF assms cl] obtain nk where
    n1: "nodes g1 = map (coalesce_update rows) (nodes g @ map fresh_emp nk)"
    and n2: "edges g1 = edges g"
    and n3: "set nk \<subseteq> row_keys rows"
    and n4: "\<forall>k\<in>set nk. \<forall>n\<in>set (nodes g). emp_key n \<noteq> Some k"
    and n5: "T = bind_rows (\<lambda>r. match_emp r g1) rows"
    and n6: "\<forall>r\<in>set rows. match_emp r g1 \<noteq> []"
    by blast
  have ex: "\<not> list_ex (\<lambda>r. empId r = None) rows"
    using assms by (simp add: list_ex_iff)
  have "employees_stmt rows g = Inr (fold (\<lambda>(r, e). upd_node e (emp_set r)) T g1)"
    using ex cl by (simp add: employees_stmt_def)
  also have "fold (\<lambda>(r, e). upd_node e (emp_set r)) T g1 = g1\<lparr>nodes := map (set_update rows) (nodes g1)\<rparr>"
    unfolding n5 by (rule emp_set_clause)
  also have "\<dots> = \<lparr>nodes = map (emp_update rows) (nodes g @ map fresh_emp nk), edges = edges g\<rparr>"
    using n1 n2 by (intro graph.equality) (simp_all add: emp_update_split o_def)
  finally have a: "employees_stmt rows g =
      Inr \<lparr>nodes = map (emp_update rows) (nodes g @ map fresh_emp nk), edges = edges g\<rparr>" .
  have b: "\<forall>k\<in>row_keys rows. \<exists>n\<in>set (nodes g @ map fresh_emp nk). emp_key n = Some k"
  proof
    fix k assume "k \<in> row_keys rows"
    then obtain r where r: "r \<in> set rows" "empId r = Some k" by (auto simp: row_keys_def)
    with n6 have "find_idx (\<lambda>n. emp_key n = Some k) (nodes g1) \<noteq> []"
      by (auto simp: match_emp_find_idx)
    then obtain n where n: "n \<in> set (nodes g1)" "emp_key n = Some k"
      by (auto simp: find_idx_Nil_iff)
    from n(1) obtain n0 where n0: "n0 \<in> set (nodes g @ map fresh_emp nk)" "n = coalesce_update rows n0"
      unfolding n1 by auto
    from n(2) n0(2) have "emp_key n0 = Some k" by simp
    with n0(1) show "\<exists>n\<in>set (nodes g @ map fresh_emp nk). emp_key n = Some k"
      by blast
  qed
  from a n3 n4 b show ?thesis by blast
qed


section \<open>The employee statement is idempotent\<close>










lemma emp_set_unfold:
  "emp_set r p =
     (((p(''gender'' := map_option VStr (gender r)))(''designation'' := map_option VStr (designation r)))
        (''doj'' := (case doj r of None \<Rightarrow> p ''doj'' | Some d \<Rightarrow> Some (VDate d))))
     ++ (map_option VStr \<circ> extra r)"
  by (cases "doj r") (auto simp: emp_set_def Let_def fun_eq_iff map_add_def split: option.splits)












section \<open>Later states of the store\<close>

lemma edge_kept_refl [simp]: "edge_kept e e"
  by (simp add: edge_kept_def)

lemma edge_kept_trans: "edge_kept e e' \<Longrightarrow> edge_kept e' e'' \<Longrightarrow> edge_kept e e''"
  by (auto simp: edge_kept_def)

lemma grows_refl [simp]: "grows g g"
  by (simp add: grows_def)

lemma grows_nodes: "grows g g' \<Longrightarrow> nodes g' = nodes g @ new_nodes g g'"
  unfolding grows_def new_nodes_def
  by (metis append_take_drop_id)

lemma grows_trans:
  assumes "grows g g'" "grows g' g''"
  shows "grows g g''"
proof -
  have n: "nodes g'' = nodes g @ (new_nodes g g' @ new_nodes g' g'')"
    using grows_nodes[OF assms(1)] grows_nodes[OF assms(2)] by simp
  have l: "length (edges g) \<le> length (edges g')" "length (edges g') \<le> length (edges g'')"
    using assms by (auto simp: grows_def)
  have e: "\<forall>i<length (edges g). edge_kept (edges g ! i) (edges g'' ! i)"
  proof (intro allI impI)
    fix i assume i: "i < length (edges g)"
    then have "edge_kept (edges g ! i) (edges g' ! i)" using assms(1) by (simp add: grows_def)
    moreover have "edge_kept (edges g' ! i) (edges g'' ! i)"
      using assms(2) i l by (simp add: grows_def)
    ultimately show "edge_kept (edges g ! i) (edges g'' ! i)" by (rule edge_kept_trans)
  qed
  show ?thesis
    unfolding grows_def using n l e by simp
qed

lemma new_nodes_trans:
  assumes "grows g g'" "grows g' g''"
  shows "new_nodes g g'' = new_nodes g g' @ new_nodes g' g''"
proof -
  have "nodes g'' = nodes g @ (new_nodes g g' @ new_nodes g' g'')"
    using grows_nodes[OF assms(1)] grows_nodes[OF assms(2)] by simp
  then show ?thesis by (simp add: new_nodes_def[of g g''])
qed

lemma new_nodes_same [simp]: "new_nodes g g = []"
  by (simp add: new_nodes_def)

lemma grows_appendI:
  "nodes g' = nodes g @ news \<Longrightarrow> edges g' = edges g @ newe \<Longrightarrow> grows g g'"
  by (simp add: grows_def nth_append)

lemma new_nodes_appendI: "nodes g' = nodes g @ news \<Longrightarrow> new_nodes g g' = news"
  by (simp add: new_nodes_def)

lemma inert_refl [simp]: "inert rows g g"
  by (simp add: inert_def)

lemma inert_trans: "inert rows g g' \<Longrightarrow> inert rows g' g'' \<Longrightarrow> inert rows g g''"
  unfolding inert_def
  using grows_trans[of g g' g''] new_nodes_trans[of g g' g''] by auto

lemma adds_named_refl [simp]: "adds_named lbl g g"
  by (simp add: adds_named_def)

lemma match_emp_inert:
  assumes "inert rows g g'" "r \<in> set rows"
  shows "match_emp r g' = match_emp r g"
proof (cases "empId r")
  case None
  then show ?thesis by (simp add: match_emp_None)
next
  case (Some k)
  then have k: "k \<in> row_keys rows" using assms(2) by (auto simp: row_keys_def)
  have n: "nodes g' = nodes g @ new_nodes g g'"
    using assms(1) by (simp add: inert_def grows_nodes)
  have "\<forall>y\<in>set (new_nodes g g'). \<not> emp_key y = Some k"
    using assms(1) k by (auto simp: inert_def)
  then have "find_idx (\<lambda>n. emp_key n = Some k) (nodes g @ new_nodes g g')
      = find_idx (\<lambda>n. emp_key n = Some k) (nodes g)"
    by (rule find_idx_append_none)
  then show ?thesis
    using Some n by (simp add: match_emp_find_idx)
qed


text \<open>
  What a statement has merged stays merged when later statements only add nodes that are
  no employees of the batch and carry a name that was not there.
\<close>

lemma merged_sat_later:
  assumes sat: "merged_sat pairs lbl ty req g"
      and inert: "inert rows g g'"
      and named: "adds_named lbl' g g'"
      and rows: "\<forall>rv\<in>set pairs. fst rv \<in> set rows"
      and req: "''since'' \<notin> fst ` set req"
  shows "merged_sat pairs lbl ty req g'"
  unfolding merged_sat_def
proof (intro ballI)
  fix rv e assume rv: "rv \<in> set pairs" and e': "e \<in> set (match_emp (fst rv) g')"
  have r: "fst rv \<in> set rows" using rows rv by blast
  have e: "e \<in> set (match_emp (fst rv) g)"
    using e' match_emp_inert[OF inert r] by simp
  have gr: "grows g g'" using inert by (simp add: inert_def)
  have n: "nodes g' = nodes g @ new_nodes g g'" using gr by (rule grows_nodes)
  from sat rv e have ex: "\<exists>n\<in>set (nodes g). node_matches lbl ''name'' (snd rv) n"
    and ed: "\<forall>t\<in>set (match_nodes lbl ''name'' (snd rv) g).
          \<exists>x\<in>set (edges g). edge_matches e ty req t x"
    by (auto simp: merged_sat_def)
  have nomatch: "\<forall>y\<in>set (new_nodes g g'). \<not> node_matches lbl ''name'' (snd rv) y"
  proof
    fix y assume y: "y \<in> set (new_nodes g g')"
    with named obtain v where l: "nlabels y = [lbl']" and v: "nprops y ''name'' = Some (VStr v)"
      and fresh: "\<forall>x\<in>set (nodes g). \<not> node_matches lbl' ''name'' v x"
      by (auto simp: adds_named_def)
    show "\<not> node_matches lbl ''name'' (snd rv) y"
    proof
      assume m: "node_matches lbl ''name'' (snd rv) y"
      then have "lbl = lbl'" "v = snd rv" using l v by (auto simp: node_matches_def)
      with fresh ex show False by blast
    qed
  qed
  have same: "match_nodes lbl ''name'' (snd rv) g' = match_nodes lbl ''name'' (snd rv) g"
    unfolding match_nodes_find_idx n using nomatch by (rule find_idx_append_none)
  have "\<exists>n\<in>set (nodes g'). node_matches lbl ''name'' (snd rv) n"
    using ex n by auto
  moreover have "\<forall>t\<in>set (match_nodes lbl ''name'' (snd rv) g').
      \<exists>x\<in>set (edges g'). edge_matches e ty req t x"
  proof
    fix t assume "t \<in> set (match_nodes lbl ''name'' (snd rv) g')"
    with same ed obtain x where x: "x \<in> set (edges g)" "edge_matches e ty req t x" by auto
    then obtain i where i: "i < length (edges g)" "edges g ! i = x"
      by (auto simp: in_set_conv_nth)
    with gr have k: "edge_kept x (edges g' ! i)" and l: "i < length (edges g')"
      by (auto simp: grows_def)
    have "\<forall>kv\<in>set req. eprops (edges g' ! i) (fst kv) = eprops x (fst kv)"
    proof
      fix kv assume "kv \<in> set req"
      with req have "fst kv \<noteq> ''since''" by force
      with k show "eprops (edges g' ! i) (fst kv) = eprops x (fst kv)"
        by (simp add: edge_kept_def)
    qed
    then have "edge_matches e ty req t (edges g' ! i)"
      using x(2) k by (auto simp: edge_matches_def edge_kept_def list_all_iff)
    with l show "\<exists>x\<in>set (edges g'). edge_matches e ty req t x"
      by (auto intro: nth_mem)
  qed
  ultimately show "(\<exists>n\<in>set (nodes g'). node_matches lbl ''name'' (snd rv) n) \<and>
      (\<forall>t\<in>set (match_nodes lbl ''name'' (snd rv) g').
          \<exists>x\<in>set (edges g'). edge_matches e ty req t x)"
    by blast
qed


section \<open>The statements that link an employee to a node merged by name\<close>

lemma set_with_field:
  "rv \<in> set (with_field f rows) \<longleftrightarrow>
     fst rv \<in> set rows \<and> f (fst rv) = Some (snd rv) \<and> snd rv \<noteq> []"
  unfolding with_field_def
  by (induction rows) (auto split: option.splits if_splits)

lemma set_with_some:
  "rv \<in> set (with_some f rows) \<longleftrightarrow> fst rv \<in> set rows \<and> f (fst rv) = Some (snd rv)"
  unfolding with_some_def
  by (induction rows) (auto split: option.splits)

lemma link_clauses_result:
  assumes oc: "\<And>r v p. on_create r v p ''name'' = p ''name''"
      and lc: "link_clauses f lbl on_create ty rows g = (g2, t3)"
  shows "(\<exists>news newe. nodes g2 = nodes g @ news \<and> edges g2 = edges g @ newe \<and>
           (\<forall>n\<in>set news. \<exists>rv\<in>set (with_field f rows). match_emp (fst rv) g \<noteq> [] \<and>
               n = \<lparr>nlabels = [lbl],
                     nprops = on_create (fst rv) (snd rv) [''name'' \<mapsto> VStr (snd rv)]\<rparr> \<and>
               (\<forall>x\<in>set (nodes g). \<not> node_matches lbl ''name'' (snd rv) x))) \<and>
         (\<forall>rv\<in>set (with_field f rows). \<forall>e\<in>set (match_emp (fst rv) g).
           (\<exists>n\<in>set (nodes g2). node_matches lbl ''name'' (snd rv) n) \<and>
           (\<forall>t\<in>set (match_nodes lbl ''name'' (snd rv) g2).
               \<exists>x\<in>set (edges g2). edge_matches e ty [] t x)) \<and>
         t3 = bind_rows (\<lambda>b. match_edges (snd (fst b)) ty [] (snd b) g2)
               (bind_rows (\<lambda>a. match_nodes lbl ''name'' (snd (fst a)) g2)
                  (bind_rows (\<lambda>rv. match_emp (fst rv) g) (with_field f rows)))"
proof -
  define t1 where "t1 = bind_rows (\<lambda>rv. match_emp (fst rv) g) (with_field f rows)"
  define M :: "(emp_record \<times> string) \<times> nat \<Rightarrow> node \<Rightarrow> bool"
    where "M = (\<lambda>a. node_matches lbl ''name'' (snd (fst a)))"
  define mk :: "(emp_record \<times> string) \<times> nat \<Rightarrow> node"
    where "mk = (\<lambda>a. \<lparr>nlabels = [lbl],
              nprops = on_create (fst (fst a)) (snd (fst a)) [''name'' \<mapsto> VStr (snd (fst a))]\<rparr>)"
  define E :: "((emp_record \<times> string) \<times> nat) \<times> nat \<Rightarrow> edge \<Rightarrow> bool"
    where "E = (\<lambda>b. edge_matches (snd (fst b)) ty [] (snd b))"
  define mke :: "((emp_record \<times> string) \<times> nat) \<times> nat \<Rightarrow> edge"
    where "mke = (\<lambda>b. \<lparr>esrc = snd (fst b), edst = snd b, etype = ty, eprops = map_of []\<rparr>)"
  obtain ns t2 where ma: "merge_all M mk t1 (nodes g) = (ns, t2)"
    by (cases "merge_all M mk t1 (nodes g)")
  obtain es t3' where me: "merge_all E mke t2 (edges g) = (es, t3')"
    by (cases "merge_all E mke t2 (edges g)")
  have cn: "clause (\<lambda>rve. merge_node lbl ''name'' (snd (fst rve))
                (on_create (fst (fst rve)) (snd (fst rve))) id) t1 g = (g\<lparr>nodes := ns\<rparr>, t2)"
    using clause_merge_node[of lbl "''name''" "\<lambda>a. snd (fst a)"
        "\<lambda>a. on_create (fst (fst a)) (snd (fst a))" t1 g] ma
    unfolding M_def mk_def by (simp only: prod.case)
  have ce: "clause (\<lambda>rvet. merge_edge (snd (fst rvet)) ty [] (snd rvet)) t2 (g\<lparr>nodes := ns\<rparr>)
      = (g\<lparr>nodes := ns, edges := es\<rparr>, t3')"
    using clause_merge_edge[of "\<lambda>b. snd (fst b)" ty "[]" snd t2 "g\<lparr>nodes := ns\<rparr>"] me
    unfolding E_def mke_def by simp
  have "link_clauses f lbl on_create ty rows g = (g\<lparr>nodes := ns, edges := es\<rparr>, t3')"
    unfolding link_clauses_def Let_def t1_def[symmetric] cn prod.case ce ..
  with lc have g2: "g2 = g\<lparr>nodes := ns, edges := es\<rparr>" and t3: "t3 = t3'" by simp_all
  have c1: "\<And>a. M a (mk a)"
    by (simp add: M_def mk_def node_matches_def oc)
  have c2: "\<And>a a' x. M a (mk a') \<Longrightarrow> M a' x = M a x"
    by (simp add: M_def mk_def node_matches_def oc)
  from merge_all_result[of M mk, OF c1 c2 ma] obtain news where
    n1: "ns = nodes g @ news"
    and n2: "\<forall>n\<in>set news. \<exists>a\<in>set t1. n = mk a \<and> (\<forall>x\<in>set (nodes g). \<not> M a x)"
    and n3: "\<forall>a\<in>set t1. \<exists>x\<in>set ns. M a x"
    and n4: "t2 = bind_rows (\<lambda>a. find_idx (M a) ns) t1"
    by blast
  have d1: "\<And>b. E b (mke b)"
    by (simp add: E_def mke_def edge_matches_def)
  have d2: "\<And>b b' x. E b (mke b') \<Longrightarrow> E b' x = E b x"
    by (simp add: E_def mke_def edge_matches_def)
  from merge_all_result[of E mke, OF d1 d2 me] obtain newe where
    e1: "es = edges g @ newe"
    and e3: "\<forall>b\<in>set t2. \<exists>x\<in>set es. E b x"
    and e4: "t3' = bind_rows (\<lambda>b. find_idx (E b) es) t2"
    by blast
  have ng2: "nodes g2 = ns" and eg2: "edges g2 = es" using g2 by simp_all
  have p1: "\<forall>n\<in>set news. \<exists>rv\<in>set (with_field f rows). match_emp (fst rv) g \<noteq> [] \<and>
               n = \<lparr>nlabels = [lbl],
                     nprops = on_create (fst rv) (snd rv) [''name'' \<mapsto> VStr (snd rv)]\<rparr> \<and>
               (\<forall>x\<in>set (nodes g). \<not> node_matches lbl ''name'' (snd rv) x)"
  proof
    fix n assume "n \<in> set news"
    with n2 obtain a where a: "a \<in> set t1" "n = mk a" "\<forall>x\<in>set (nodes g). \<not> M a x" by blast
    from a(1) have "fst a \<in> set (with_field f rows)" "snd a \<in> set (match_emp (fst (fst a)) g)"
      by (auto simp: t1_def set_bind_rows)
    then have "fst a \<in> set (with_field f rows) \<and> match_emp (fst (fst a)) g \<noteq> []" by auto
    with a(2,3) show "\<exists>rv\<in>set (with_field f rows). match_emp (fst rv) g \<noteq> [] \<and>
               n = \<lparr>nlabels = [lbl],
                     nprops = on_create (fst rv) (snd rv) [''name'' \<mapsto> VStr (snd rv)]\<rparr> \<and>
               (\<forall>x\<in>set (nodes g). \<not> node_matches lbl ''name'' (snd rv) x)"
      unfolding M_def mk_def by (intro bexI[of _ "fst a"]) auto
  qed
  have p2: "\<forall>rv\<in>set (with_field f rows). \<forall>e\<in>set (match_emp (fst rv) g).
           (\<exists>n\<in>set (nodes g2). node_matches lbl ''name'' (snd rv) n) \<and>
           (\<forall>t\<in>set (match_nodes lbl ''name'' (snd rv) g2).
               \<exists>x\<in>set (edges g2). edge_matches e ty [] t x)"
  proof (intro ballI conjI)
    fix rv e assume rv: "rv \<in> set (with_field f rows)" and e: "e \<in> set (match_emp (fst rv) g)"
    then have a: "(rv, e) \<in> set t1" by (simp add: t1_def set_bind_rows)
    with n3 show "\<exists>n\<in>set (nodes g2). node_matches lbl ''name'' (snd rv) n"
      unfolding ng2 M_def by force
    fix t assume "t \<in> set (match_nodes lbl ''name'' (snd rv) g2)"
    then have "t \<in> set (find_idx (M (rv, e)) ns)"
      by (simp add: match_nodes_find_idx ng2 M_def)
    with a have "((rv, e), t) \<in> set t2" by (simp add: n4 set_bind_rows)
    with e3 show "\<exists>x\<in>set (edges g2). edge_matches e ty [] t x"
      unfolding eg2 E_def by force
  qed
  have p3: "t3 = bind_rows (\<lambda>b. match_edges (snd (fst b)) ty [] (snd b) g2)
               (bind_rows (\<lambda>a. match_nodes lbl ''name'' (snd (fst a)) g2)
                  (bind_rows (\<lambda>rv. match_emp (fst rv) g) (with_field f rows)))"
    unfolding t3 e4 n4 match_edges_find_idx match_nodes_find_idx ng2 eg2 t1_def E_def M_def ..
  from n1 e1 p1 p2 p3 ng2 eg2 show ?thesis by blast
qed



text \<open>
  A link statement whose new nodes are no employees of the batch: the graph grows, and
  what the statement merges is there.
\<close>

lemma link_clauses_sat:
  assumes oc: "\<And>r v p. on_create r v p ''name'' = p ''name''"
      and lc: "link_clauses f lbl on_create ty rows g = (g2, t3)"
      and nk: "\<And>rv k. rv \<in> set (with_field f rows) \<Longrightarrow> match_emp (fst rv) g \<noteq> [] \<Longrightarrow>
               k \<in> row_keys rows \<Longrightarrow>
               emp_key \<lparr>nlabels = [lbl],
                   nprops = on_create (fst rv) (snd rv) [''name'' \<mapsto> VStr (snd rv)]\<rparr> \<noteq> Some k"
  shows "inert rows g g2 \<and> adds_named lbl g g2 \<and> merged_sat (with_field f rows) lbl ty [] g2"
proof -
  from link_clauses_result[OF oc lc] obtain news newe where
    n: "nodes g2 = nodes g @ news" and e: "edges g2 = edges g @ newe"
    and new: "\<forall>n\<in>set news. \<exists>rv\<in>set (with_field f rows). match_emp (fst rv) g \<noteq> [] \<and>
               n = \<lparr>nlabels = [lbl],
                     nprops = on_create (fst rv) (snd rv) [''name'' \<mapsto> VStr (snd rv)]\<rparr> \<and>
               (\<forall>x\<in>set (nodes g). \<not> node_matches lbl ''name'' (snd rv) x)"
    and m: "\<forall>rv\<in>set (with_field f rows). \<forall>e\<in>set (match_emp (fst rv) g).
           (\<exists>n\<in>set (nodes g2). node_matches lbl ''name'' (snd rv) n) \<and>
           (\<forall>t\<in>set (match_nodes lbl ''name'' (snd rv) g2).
               \<exists>x\<in>set (edges g2). edge_matches e ty [] t x)"
    by blast
  have gr: "grows g g2" using n e by (rule grows_appendI)
  have nn: "new_nodes g g2 = news" using n by (rule new_nodes_appendI)
  have i: "inert rows g g2"
    unfolding inert_def nn
  proof (intro conjI ballI)
    show "grows g g2" by (rule gr)
  next
    fix y k assume y: "y \<in> set news" and k: "k \<in> row_keys rows"
    from new y obtain rv where rv: "rv \<in> set (with_field f rows)" "match_emp (fst rv) g \<noteq> []"
      "y = \<lparr>nlabels = [lbl],
             nprops = on_create (fst rv) (snd rv) [''name'' \<mapsto> VStr (snd rv)]\<rparr>"
      by blast
    show "emp_key y \<noteq> Some k"
      unfolding rv(3) by (rule nk[OF rv(1) rv(2) k])
  qed
  have a: "adds_named lbl g g2"
    unfolding adds_named_def nn
  proof (intro conjI ballI)
    show "grows g g2" by (rule gr)
  next
    fix y assume "y \<in> set news"
    with new obtain rv where rv: "y = \<lparr>nlabels = [lbl],
                     nprops = on_create (fst rv) (snd rv) [''name'' \<mapsto> VStr (snd rv)]\<rparr>"
      "\<forall>x\<in>set (nodes g). \<not> node_matches lbl ''name'' (snd rv) x" by blast
    show "nlabels y = [lbl]" using rv(1) by simp
    have "nprops y ''name'' = Some (VStr (snd rv))" using rv(1) by (simp add: oc)
    with rv(2) show "\<exists>v. nprops y ''name'' = Some (VStr v) \<and>
        (\<forall>x\<in>set (nodes g). \<not> node_matches lbl ''name'' v x)" by blast
  qed
  have s: "merged_sat (with_field f rows) lbl ty [] g2"
    unfolding merged_sat_def
  proof (intro ballI)
    fix rv e assume rv: "rv \<in> set (with_field f rows)" and e: "e \<in> set (match_emp (fst rv) g2)"
    have "fst rv \<in> set rows" using rv by (simp add: set_with_field)
    then have "match_emp (fst rv) g2 = match_emp (fst rv) g" by (rule match_emp_inert[OF i])
    with e m rv show "(\<exists>n\<in>set (nodes g2). node_matches lbl ''name'' (snd rv) n) \<and>
        (\<forall>t\<in>set (match_nodes lbl ''name'' (snd rv) g2).
            \<exists>x\<in>set (edges g2). edge_matches e ty [] t x)" by simp
  qed
  from i a s show ?thesis by blast
qed

lemma emp_key_not_employee: "''Employee'' \<notin> set (nlabels n) \<Longrightarrow> emp_key n = None"
  by (simp add: emp_key_def)



lemma set_stub_id_name [simp]: "set_stub_id kind r v p ''name'' = p ''name''"
  by (simp add: set_stub_id_def)







section \<open>The skill statement\<close>

lemma merged_sat_linked:
  "merged_sat pairs lbl ty req g \<longleftrightarrow>
     (\<forall>rv\<in>set pairs. \<forall>e\<in>set (match_emp (fst rv) g). linked lbl ty req e (snd rv) g)"
  by (simp add: merged_sat_def linked_def)

lemma adds_named_grows: "adds_named lbl g g' \<Longrightarrow> grows g g'"
  by (simp add: adds_named_def)

lemma adds_named_trans:
  assumes "adds_named lbl g g'" "adds_named lbl g' g''"
  shows "adds_named lbl g g''"
proof -
  have g1: "grows g g'" and g2: "grows g' g''" using assms by (auto simp: adds_named_def)
  have n: "nodes g' = nodes g @ new_nodes g g'" using g1 by (rule grows_nodes)
  have "\<forall>n\<in>set (new_nodes g g' @ new_nodes g' g''). nlabels n = [lbl] \<and>
        (\<exists>v. nprops n ''name'' = Some (VStr v) \<and>
             (\<forall>x\<in>set (nodes g). \<not> node_matches lbl ''name'' v x))"
  proof
    fix y assume "y \<in> set (new_nodes g g' @ new_nodes g' g'')"
    then consider "y \<in> set (new_nodes g g')" | "y \<in> set (new_nodes g' g'')" by auto
    then show "nlabels y = [lbl] \<and>
        (\<exists>v. nprops y ''name'' = Some (VStr v) \<and>
             (\<forall>x\<in>set (nodes g). \<not> node_matches lbl ''name'' v x))"
    proof cases
      case 1
      then show ?thesis using assms(1) by (simp add: adds_named_def)
    next
      case 2
      with assms(2) obtain v where "nlabels y = [lbl]" "nprops y ''name'' = Some (VStr v)"
        "\<forall>x\<in>set (nodes g'). \<not> node_matches lbl ''name'' v x"
        by (auto simp: adds_named_def)
      then show ?thesis unfolding n by auto
    qed
  qed
  then show ?thesis
    unfolding adds_named_def new_nodes_trans[OF g1 g2] using grows_trans[OF g1 g2] by simp
qed

lemma adds_named_inert:
  assumes "adds_named lbl g g'" "lbl \<noteq> ''Employee''"
  shows "inert rows g g'"
  unfolding inert_def
proof (intro conjI ballI)
  show "grows g g'" using assms(1) by (rule adds_named_grows)
next
  fix n k assume "n \<in> set (new_nodes g g')"
  with assms have "''Employee'' \<notin> set (nlabels n)" by (auto simp: adds_named_def)
  then show "emp_key n \<noteq> Some k" by (simp add: emp_key_not_employee)
qed

lemma linked_later:
  assumes l: "linked lbl ty req e v g"
      and named: "adds_named lbl' g g'"
      and req: "''since'' \<notin> fst ` set req"
  shows "linked lbl ty req e v g'"
proof -
  have gr: "grows g g'" using named by (rule adds_named_grows)
  have n: "nodes g' = nodes g @ new_nodes g g'" using gr by (rule grows_nodes)
  from l have ex: "\<exists>n\<in>set (nodes g). node_matches lbl ''name'' v n"
    and ed: "\<forall>t\<in>set (match_nodes lbl ''name'' v g). \<exists>x\<in>set (edges g). edge_matches e ty req t x"
    by (auto simp: linked_def)
  have nomatch: "\<forall>y\<in>set (new_nodes g g'). \<not> node_matches lbl ''name'' v y"
  proof
    fix y assume y: "y \<in> set (new_nodes g g')"
    with named obtain v' where l': "nlabels y = [lbl']" and v': "nprops y ''name'' = Some (VStr v')"
      and fresh: "\<forall>x\<in>set (nodes g). \<not> node_matches lbl' ''name'' v' x"
      by (auto simp: adds_named_def)
    show "\<not> node_matches lbl ''name'' v y"
    proof
      assume m: "node_matches lbl ''name'' v y"
      then have "lbl = lbl'" "v' = v" using l' v' by (auto simp: node_matches_def)
      with fresh ex show False by blast
    qed
  qed
  have same: "match_nodes lbl ''name'' v g' = match_nodes lbl ''name'' v g"
    unfolding match_nodes_find_idx n using nomatch by (rule find_idx_append_none)
  have a: "\<exists>n\<in>set (nodes g'). node_matches lbl ''name'' v n"
    using ex n by auto
  have b: "\<forall>t\<in>set (match_nodes lbl ''name'' v g'). \<exists>x\<in>set (edges g'). edge_matches e ty req t x"
  proof
    fix t assume "t \<in> set (match_nodes lbl ''name'' v g')"
    with same ed obtain x where x: "x \<in> set (edges g)" "edge_matches e ty req t x" by auto
    then obtain i where i: "i < length (edges g)" "edges g ! i = x"
      by (auto simp: in_set_conv_nth)
    with gr have k: "edge_kept x (edges g' ! i)" and len: "i < length (edges g')"
      by (auto simp: grows_def)
    have "\<forall>kv\<in>set req. eprops (edges g' ! i) (fst kv) = eprops x (fst kv)"
    proof
      fix kv assume "kv \<in> set req"
      with req have "fst kv \<noteq> ''since''" by force
      with k show "eprops (edges g' ! i) (fst kv) = eprops x (fst kv)"
        by (simp add: edge_kept_def)
    qed
    then have "edge_matches e ty req t (edges g' ! i)"
      using x(2) k by (auto simp: edge_matches_def edge_kept_def list_all_iff)
    with len show "\<exists>x\<in>set (edges g'). edge_matches e ty req t x"
      by (auto intro: nth_mem)
  qed
  from a b show ?thesis by (simp add: linked_def)
qed

text \<open>The body of a \<^verbatim>\<open>FOREACH\<close> for a row with a skill.\<close>

lemma skill_foreach_result:
  assumes s: "f (fst re) = Some s"
  shows "adds_named ''Skill'' g (skill_foreach f kind re g) \<and>
         linked ''Skill'' ''HAS_SKILL'' [(''type'', VStr kind)] (snd re) s (skill_foreach f kind re g)"
proof -
  define M :: "unit \<Rightarrow> node \<Rightarrow> bool" where "M = (\<lambda>u. node_matches ''Skill'' ''name'' s)"
  define mk :: "unit \<Rightarrow> node"
    where "mk = (\<lambda>u. \<lparr>nlabels = [''Skill''], nprops = id [''name'' \<mapsto> VStr s]\<rparr>)"
  define E :: "unit \<times> nat \<Rightarrow> edge \<Rightarrow> bool"
    where "E = (\<lambda>b. edge_matches (snd re) ''HAS_SKILL'' [(''type'', VStr kind)] (snd b))"
  define mke :: "unit \<times> nat \<Rightarrow> edge"
    where "mke = (\<lambda>b. \<lparr>esrc = snd re, edst = snd b, etype = ''HAS_SKILL'',
                       eprops = map_of [(''type'', VStr kind)]\<rparr>)"
  obtain ns t where ma: "merge_all M mk [()] (nodes g) = (ns, t)"
    by (cases "merge_all M mk [()] (nodes g)")
  obtain es t' where me: "merge_all E mke t (edges g) = (es, t')"
    by (cases "merge_all E mke t (edges g)")
  have cn: "clause (\<lambda>u. merge_node ''Skill'' ''name'' s id id) [()] g = (g\<lparr>nodes := ns\<rparr>, t)"
    using clause_merge_node[of "''Skill''" "''name''" "\<lambda>u. s" "\<lambda>u. id" "[()]" g] ma
    unfolding M_def mk_def by simp
  have ce: "clause (\<lambda>us. merge_edge (snd re) ''HAS_SKILL'' [(''type'', VStr kind)] (snd us)) t
               (g\<lparr>nodes := ns\<rparr>) = (g\<lparr>nodes := ns, edges := es\<rparr>, t')"
    using clause_merge_edge[of "\<lambda>b. snd re" "''HAS_SKILL''" "[(''type'', VStr kind)]" snd t
        "g\<lparr>nodes := ns\<rparr>"] me
    unfolding E_def mke_def by simp
  have h: "skill_foreach f kind re g = g\<lparr>nodes := ns, edges := es\<rparr>"
    unfolding skill_foreach_def s option.case Let_def cn prod.case ce fst_conv ..
  have c1: "\<And>a. M a (mk a)" by (simp add: M_def mk_def node_matches_def)
  have c2: "\<And>a a' x. M a (mk a') \<Longrightarrow> M a' x = M a x" by (simp add: M_def)
  from merge_all_result[of M mk, OF c1 c2 ma] obtain news where
    n1: "ns = nodes g @ news"
    and n2: "\<forall>n\<in>set news. \<exists>a\<in>set [()]. n = mk a \<and> (\<forall>x\<in>set (nodes g). \<not> M a x)"
    and n3: "\<forall>a\<in>set [()]. \<exists>x\<in>set ns. M a x"
    and n4: "t = bind_rows (\<lambda>a. find_idx (M a) ns) [()]"
    by blast
  have d1: "\<And>b. E b (mke b)" by (simp add: E_def mke_def edge_matches_def)
  have d2: "\<And>b b' x. E b (mke b') \<Longrightarrow> E b' x = E b x"
    by (simp add: E_def mke_def edge_matches_def)
  from merge_all_result[of E mke, OF d1 d2 me] obtain newe where
    e1: "es = edges g @ newe"
    and e3: "\<forall>b\<in>set t. \<exists>x\<in>set es. E b x"
    by blast
  let ?h = "g\<lparr>nodes := ns, edges := es\<rparr>"
  have gr: "grows g ?h" by (rule grows_appendI[where news=news and newe=newe]) (simp_all add: n1 e1)
  have nn: "new_nodes g ?h = news" by (rule new_nodes_appendI) (simp add: n1)
  have a: "adds_named ''Skill'' g ?h"
    unfolding adds_named_def nn
  proof (intro conjI ballI)
    show "grows g ?h" by (rule gr)
  next
    fix y assume "y \<in> set news"
    with n2 have y: "y = mk ()" "\<forall>x\<in>set (nodes g). \<not> M () x" by auto
    show "nlabels y = [''Skill'']" using y(1) by (simp add: mk_def)
    have "nprops y ''name'' = Some (VStr s)" using y(1) by (simp add: mk_def)
    with y(2) show "\<exists>v. nprops y ''name'' = Some (VStr v) \<and>
        (\<forall>x\<in>set (nodes g). \<not> node_matches ''Skill'' ''name'' v x)"
      unfolding M_def by blast
  qed
  have l: "linked ''Skill'' ''HAS_SKILL'' [(''type'', VStr kind)] (snd re) s ?h"
    unfolding linked_def
  proof (intro conjI ballI)
    show "\<exists>n\<in>set (nodes ?h). node_matches ''Skill'' ''name'' s n"
      using n3 by (simp add: M_def)
  next
    fix ti assume "ti \<in> set (match_nodes ''Skill'' ''name'' s ?h)"
    then have "ti \<in> set (find_idx (M ()) ns)"
      by (simp add: match_nodes_find_idx M_def)
    then have "((), ti) \<in> set t" by (simp add: n4 set_bind_rows)
    with e3 show "\<exists>x\<in>set (edges ?h). edge_matches (snd re) ''HAS_SKILL'' [(''type'', VStr kind)] ti x"
      unfolding E_def by force
  qed
  from a l show ?thesis unfolding h by blast
qed

lemma skill_foreach_none: "f (fst re) = None \<Longrightarrow> skill_foreach f kind re g = g"
  by (simp add: skill_foreach_def)

lemma skill_foreach_adds: "adds_named ''Skill'' g (skill_foreach f kind re g)"
proof (cases "f (fst re)")
  case None
  then show ?thesis by (simp add: skill_foreach_none)
next
  case (Some s)
  with skill_foreach_result[of f re s g kind] show ?thesis by blast
qed



lemma skill_fold:
  "adds_named ''Skill'' g (fold (skill_foreach f kind) tbl g) \<and>
   (\<forall>re\<in>set tbl. \<forall>s. f (fst re) = Some s \<longrightarrow>
      linked ''Skill'' ''HAS_SKILL'' [(''type'', VStr kind)] (snd re) s (fold (skill_foreach f kind) tbl g))"
proof (induction tbl arbitrary: g)
  case Nil
  then show ?case by simp
next
  case (Cons re tbl)
  let ?h = "skill_foreach f kind re g"
  let ?g' = "fold (skill_foreach f kind) tbl ?h"
  have f: "fold (skill_foreach f kind) (re # tbl) g = ?g'" by simp
  have a1: "adds_named ''Skill'' g ?h" by (rule skill_foreach_adds)
  have a2: "adds_named ''Skill'' ?h ?g'" using Cons.IH[of ?h] by blast
  have rest: "\<forall>re\<in>set tbl. \<forall>s. f (fst re) = Some s \<longrightarrow>
      linked ''Skill'' ''HAS_SKILL'' [(''type'', VStr kind)] (snd re) s ?g'"
    using Cons.IH[of ?h] by blast
  have here: "\<forall>s. f (fst re) = Some s \<longrightarrow>
      linked ''Skill'' ''HAS_SKILL'' [(''type'', VStr kind)] (snd re) s ?g'"
  proof (intro allI impI)
    fix s assume s: "f (fst re) = Some s"
    have "linked ''Skill'' ''HAS_SKILL'' [(''type'', VStr kind)] (snd re) s ?h"
      using skill_foreach_result[of f re s g kind] s by blast
    then show "linked ''Skill'' ''HAS_SKILL'' [(''type'', VStr kind)] (snd re) s ?g'"
      by (rule linked_later[OF _ a2]) simp
  qed
  show ?case
    unfolding f using adds_named_trans[OF a1 a2] rest here by simp
qed


lemma skills_stmt_sat:
  "inert rows g (skills_stmt rows g) \<and> adds_named ''Skill'' g (skills_stmt rows g) \<and>
   merged_sat (with_some primarySkill rows) ''Skill'' ''HAS_SKILL'' [(''type'', VStr ''primary'')]
     (skills_stmt rows g) \<and>
   merged_sat (with_some secondarySkill rows) ''Skill'' ''HAS_SKILL'' [(''type'', VStr ''secondary'')]
     (skills_stmt rows g)"
proof -
  define t1 where "t1 = bind_rows (\<lambda>r. match_emp r g) rows"
  define h where "h = fold (skill_foreach primarySkill ''primary'') t1 g"
  define g' where "g' = fold (skill_foreach secondarySkill ''secondary'') t1 h"
  have st: "skills_stmt rows g = g'"
    by (simp add: skills_stmt_def Let_def t1_def h_def g'_def)
  have a1: "adds_named ''Skill'' g h" and l1: "\<forall>re\<in>set t1. \<forall>s. primarySkill (fst re) = Some s \<longrightarrow>
      linked ''Skill'' ''HAS_SKILL'' [(''type'', VStr ''primary'')] (snd re) s h"
    unfolding h_def using skill_fold[of g primarySkill "''primary''" t1] by blast+
  have a2: "adds_named ''Skill'' h g'" and l2: "\<forall>re\<in>set t1. \<forall>s. secondarySkill (fst re) = Some s \<longrightarrow>
      linked ''Skill'' ''HAS_SKILL'' [(''type'', VStr ''secondary'')] (snd re) s g'"
    unfolding g'_def using skill_fold[of h secondarySkill "''secondary''" t1] by blast+
  have a: "adds_named ''Skill'' g g'" by (rule adds_named_trans[OF a1 a2])
  have i: "inert rows g g'" by (rule adds_named_inert[OF a]) simp
  have tbl: "\<And>r e. r \<in> set rows \<Longrightarrow> e \<in> set (match_emp r g') \<Longrightarrow> (r, e) \<in> set t1"
    using match_emp_inert[OF i] by (simp add: t1_def set_bind_rows)
  have p: "merged_sat (with_some primarySkill rows) ''Skill'' ''HAS_SKILL'' [(''type'', VStr ''primary'')] g'"
    unfolding merged_sat_linked
  proof (intro ballI)
    fix rv e assume rv: "rv \<in> set (with_some primarySkill rows)" and e: "e \<in> set (match_emp (fst rv) g')"
    from rv have r: "fst rv \<in> set rows" "primarySkill (fst rv) = Some (snd rv)"
      by (simp_all add: set_with_some)
    from tbl[OF r(1) e] l1 r(2)
    have "linked ''Skill'' ''HAS_SKILL'' [(''type'', VStr ''primary'')] e (snd rv) h" by force
    then show "linked ''Skill'' ''HAS_SKILL'' [(''type'', VStr ''primary'')] e (snd rv) g'"
      by (rule linked_later[OF _ a2]) simp
  qed
  have q: "merged_sat (with_some secondarySkill rows) ''Skill'' ''HAS_SKILL'' [(''type'', VStr ''secondary'')] g'"
    unfolding merged_sat_linked
  proof (intro ballI)
    fix rv e assume rv: "rv \<in> set (with_some secondarySkill rows)" and e: "e \<in> set (match_emp (fst rv) g')"
    from rv have r: "fst rv \<in> set rows" "secondarySkill (fst rv) = Some (snd rv)"
      by (simp_all add: set_with_some)
    from tbl[OF r(1) e] l2 r(2)
    show "linked ''Skill'' ''HAS_SKILL'' [(''type'', VStr ''secondary'')] e (snd rv) g'" by force
  qed
  from i a p q show ?thesis unfolding st by blast
qed


section \<open>The project statement\<close>

lemma nodes_upd_edge [simp]: "nodes (upd_edge i f g) = nodes g"
  by (simp add: upd_edge_def)

lemma length_edges_upd_edge [simp]: "length (edges (upd_edge i f g)) = length (edges g)"
  by (simp add: upd_edge_def)

lemma edges_upd_edge_nth:
  "j < length (edges g) \<Longrightarrow>
   edges (upd_edge i f g) ! j =
     (if j = i then (edges g ! j)\<lparr>eprops := f (eprops (edges g ! j))\<rparr> else edges g ! j)"
  by (simp add: upd_edge_def nth_list_update)

lemma edge_kept_set_since: "edge_kept e (e\<lparr>eprops := set_since r (eprops e)\<rparr>)"
  by (auto simp: edge_kept_def set_since_def split: option.splits)



text \<open>The \<^verbatim>\<open>SET w.since\<close> clause over a table.\<close>

lemma since_clause:
  fixes R :: "'a \<Rightarrow> emp_record" and W :: "'a \<Rightarrow> nat"
  defines "S \<equiv> \<lambda>tbl. fold (\<lambda>row. upd_edge (W row) (set_since (R row))) tbl"
  shows "nodes (S tbl g) = nodes g \<and> length (edges (S tbl g)) = length (edges g) \<and>
     (\<forall>i<length (edges g). edge_kept (edges g ! i) (edges (S tbl g) ! i)) \<and>
     (\<forall>row\<in>set tbl. W row < length (edges g) \<longrightarrow>
         doj (R row) = None \<or> eprops (edges (S tbl g) ! W row) ''since'' \<noteq> None)"
proof (induction tbl arbitrary: g)
  case Nil
  then show ?case by (simp add: S_def)
next
  case (Cons row tbl)
  let ?h = "upd_edge (W row) (set_since (R row)) g"
  have s: "S (row # tbl) g = S tbl ?h" by (simp add: S_def)
  note IH = Cons.IH[of ?h]
  have k1: "\<forall>i<length (edges g). edge_kept (edges g ! i) (edges ?h ! i)"
    by (simp add: edges_upd_edge_nth edge_kept_set_since)
  have k: "\<forall>i<length (edges g). edge_kept (edges g ! i) (edges (S tbl ?h) ! i)"
  proof (intro allI impI)
    fix i assume i: "i < length (edges g)"
    with k1 have "edge_kept (edges g ! i) (edges ?h ! i)" by blast
    moreover have "edge_kept (edges ?h ! i) (edges (S tbl ?h) ! i)" using IH i by simp
    ultimately show "edge_kept (edges g ! i) (edges (S tbl ?h) ! i)" by (rule edge_kept_trans)
  qed
  have here: "W row < length (edges g) \<longrightarrow>
         doj (R row) = None \<or> eprops (edges (S tbl ?h) ! W row) ''since'' \<noteq> None"
  proof (intro impI)
    assume w: "W row < length (edges g)"
    have a: "doj (R row) = None \<or> eprops (edges ?h ! W row) ''since'' \<noteq> None"
      using w by (auto simp: edges_upd_edge_nth set_since_def split: option.splits)
    have "edge_kept (edges ?h ! W row) (edges (S tbl ?h) ! W row)" using IH w by simp
    with a show "doj (R row) = None \<or> eprops (edges (S tbl ?h) ! W row) ''since'' \<noteq> None"
      by (auto simp: edge_kept_def)
  qed
  show ?case
    unfolding s using IH k here by simp
qed

lemma match_edges_same:
  assumes "length (edges g') = length (edges g)"
      and "\<forall>i<length (edges g). edge_kept (edges g ! i) (edges g' ! i)"
  shows "match_edges s ty [] d g' = match_edges s ty [] d g"
  unfolding match_edges_def assms(1)
  by (rule filter_cong) (use assms(2) in \<open>auto simp: edge_matches_def edge_kept_def\<close>)

lemma projects_stmt_sat:
  "inert rows g (projects_stmt rows g) \<and> adds_named ''Project'' g (projects_stmt rows g) \<and>
   merged_sat (with_field project rows) ''Project'' ''WORKS_ON'' [] (projects_stmt rows g) \<and>
   since_sat rows (projects_stmt rows g)"
proof -
  obtain g1 t where lc: "link_clauses project ''Project'' (\<lambda>r v. id) ''WORKS_ON'' rows g = (g1, t)"
    by (cases "link_clauses project ''Project'' (\<lambda>r v. id) ''WORKS_ON'' rows g")
  define g' where "g' = fold (\<lambda>row. upd_edge (snd row) (set_since (fst (fst (fst (fst row)))))) t g1"
  have st: "projects_stmt rows g = g'"
    using lc by (simp add: projects_stmt_def g'_def)
  have l: "inert rows g g1 \<and> adds_named ''Project'' g g1 \<and>
      merged_sat (with_field project rows) ''Project'' ''WORKS_ON'' [] g1"
    by (rule link_clauses_sat[OF _ lc]) (simp_all add: emp_key_not_employee)
  have t: "t = bind_rows (\<lambda>b. match_edges (snd (fst b)) ''WORKS_ON'' [] (snd b) g1)
               (bind_rows (\<lambda>a. match_nodes ''Project'' ''name'' (snd (fst a)) g1)
                  (bind_rows (\<lambda>rv. match_emp (fst rv) g) (with_field project rows)))"
    using link_clauses_result[OF _ lc] by simp
  note S = since_clause[where R="\<lambda>row. fst (fst (fst (fst row)))" and W=snd and tbl=t and g=g1,
      folded g'_def]
  have n: "nodes g' = nodes g1" and len: "length (edges g') = length (edges g1)"
    and kept: "\<forall>i<length (edges g1). edge_kept (edges g1 ! i) (edges g' ! i)"
    using S by simp_all
  have gr: "grows g1 g'"
    unfolding grows_def using n len kept by simp
  have nn: "new_nodes g1 g' = []" by (simp add: new_nodes_def n)
  have i1: "inert rows g1 g'" unfolding inert_def nn using gr by simp
  have a1: "adds_named ''Project'' g1 g'" unfolding adds_named_def nn using gr by simp
  have i: "inert rows g g'" using l i1 by (blast intro: inert_trans)
  have a: "adds_named ''Project'' g g'" using l a1 by (blast intro: adds_named_trans)
  have m: "merged_sat (with_field project rows) ''Project'' ''WORKS_ON'' [] g'"
    by (rule merged_sat_later[OF _ i1 a1]) (use l in \<open>simp_all add: set_with_field\<close>)
  have s: "since_sat rows g'"
    unfolding since_sat_def
  proof (intro ballI)
    fix rv e ti w
    assume rv: "rv \<in> set (with_field project rows)"
      and e: "e \<in> set (match_emp (fst rv) g')"
      and ti: "ti \<in> set (match_nodes ''Project'' ''name'' (snd rv) g')"
      and w: "w \<in> set (match_edges e ''WORKS_ON'' [] ti g')"
    have r: "fst rv \<in> set rows" using rv by (simp add: set_with_field)
    have e0: "e \<in> set (match_emp (fst rv) g)" using e match_emp_inert[OF i r] by simp
    have t0: "ti \<in> set (match_nodes ''Project'' ''name'' (snd rv) g1)"
      using ti by (simp add: match_nodes_def n)
    have w0: "w \<in> set (match_edges e ''WORKS_ON'' [] ti g1)"
      using w match_edges_same[OF len kept] by simp
    have row: "(((rv, e), ti), w) \<in> set t"
      unfolding t set_bind_rows using rv e0 t0 w0 by simp
    have wl: "w < length (edges g1)" using w0 by (simp add: match_edges_find_idx set_find_idx)
    from S row wl show "doj (fst rv) = None \<or> eprops (edges g' ! w) ''since'' \<noteq> None"
      by force
  qed
  from i a m s show ?thesis unfolding st by blast
qed



section \<open>Applying a batch twice\<close>

lemma employees_stmt_Inr:
  "employees_stmt rows g = Inr g1 \<Longrightarrow> \<forall>r\<in>set rows. empId r \<noteq> None"
  by (auto simp: employees_stmt_def list_ex_iff split: if_splits)




section \<open>The transactions and the writes\<close>

text \<open>A transaction that commits has written what its statement writes.\<close>

lemma and_then_Inr [simp]: "and_then (Inr a) f = f a"
  by (simp add: and_then_def)

lemma and_then_Inl [simp]: "and_then (Inl e) f = Inl e"
  by (simp add: and_then_def)

lemma and_then_eq_Inr: "and_then x f = Inr b \<longleftrightarrow> (\<exists>a. x = Inr a \<and> f a = Inr b)"
  by (cases x) simp_all

lemma checked_Inr: "checked cs g = Inr h \<Longrightarrow> h = g"
  by (simp add: checked_def split: if_splits)

lemma checked_Nil [simp]: "checked [] g = Inr g"
  by (simp add: checked_def satisfies_def)

lemma set_node_Inr: "set_node cs i f g = Inr h \<Longrightarrow> h = upd_node i f g"
  unfolding set_node_def by (rule checked_Inr)

lemma set_node_Nil [simp]: "set_node [] i f g = Inr (upd_node i f g)"
  by (simp add: set_node_def)

lemma each_tx_Inr:
  assumes "\<And>a h h'. a \<in> set tbl \<Longrightarrow> f a h = Inr h' \<Longrightarrow> h' = u a h"
      and "each_tx f tbl g = Inr g'"
  shows "g' = fold u tbl g"
  using assms
proof (induction tbl arbitrary: g)
  case Nil
  then show ?case by simp
next
  case (Cons a tbl)
  from Cons.prems(2) obtain h where h: "f a g = Inr h" and r: "each_tx f tbl h = Inr g'"
    by (auto simp: and_then_eq_Inr)
  have "h = u a g" using Cons.prems(1)[OF _ h] by simp
  moreover have "g' = fold u tbl h"
    by (rule Cons.IH[OF _ r]) (rule Cons.prems(1), simp_all)
  ultimately show ?case by simp
qed


lemma clause_tx_Inr:
  assumes "\<And>a h r. a \<in> set tbl \<Longrightarrow> f a h = Inr r \<Longrightarrow> r = u a h"
      and "clause_tx f tbl g = Inr r"
  shows "r = clause u tbl g"
  using assms
proof (induction tbl arbitrary: g r)
  case Nil
  then show ?case by simp
next
  case (Cons a tbl)
  from Cons.prems(2) obtain g1 bs g2 rest where
    h: "f a g = Inr (g1, bs)" and t: "clause_tx f tbl g1 = Inr (g2, rest)"
    and r: "r = (g2, map (Pair a) bs @ rest)"
    by (auto simp: and_then_eq_Inr)
  have a: "u a g = (g1, bs)" using Cons.prems(1)[OF _ h] by simp
  have "(g2, rest) = clause u tbl g1"
    by (rule Cons.IH[OF _ t]) (rule Cons.prems(1), simp_all)
  then have b: "clause u tbl g1 = (g2, rest)" by simp
  show ?case unfolding r by (simp add: a b)
qed

lemma clause_tx_rows:
  assumes "clause_tx f tbl g = Inr r" and "a \<in> set tbl"
  shows "\<exists>h r'. f a h = Inr r'"
  using assms
proof (induction tbl arbitrary: g r)
  case Nil
  then show ?case by simp
next
  case (Cons b tbl)
  from Cons.prems(1) obtain g1 bs g2 rest where
    h: "f b g = Inr (g1, bs)" and t: "clause_tx f tbl g1 = Inr (g2, rest)"
    by (auto simp: and_then_eq_Inr)
  show ?case
  proof (cases "a = b")
    case True
    with h show ?thesis by blast
  next
    case False
    with Cons.prems(2) have "a \<in> set tbl" by simp
    from Cons.IH[OF t this] show ?thesis .
  qed
qed


lemma upd_of_None [simp]: "upd_of None = id"
  by (simp add: upd_of_def)

lemma upd_of_Some [simp]: "upd_of (Some f) = f"
  by (simp add: upd_of_def)

lemma create_then_set:
  "upd_node (length (nodes g)) f (g\<lparr>nodes := nodes g @ [\<lparr>nlabels = [l], nprops = p\<rparr>]\<rparr>)
     = g\<lparr>nodes := nodes g @ [\<lparr>nlabels = [l], nprops = f p\<rparr>]\<rparr>"
  by (simp add: upd_node_def)

lemma merge_node_tx_Inr:
  assumes "merge_node_tx cs l k v oc om g = Inr r"
  shows "r = merge_node l k v (upd_of oc) (upd_of om) g"
proof (cases "match_nodes l k v g = []")
  case True
  let ?g1 = "g\<lparr>nodes := nodes g @ [\<lparr>nlabels = [l], nprops = [k \<mapsto> VStr v]\<rparr>]\<rparr>"
  from assms True obtain g2 where
    c: "checked cs ?g1 = Inr ?g1"
    and s: "(case oc of None \<Rightarrow> Inr ?g1 | Some f \<Rightarrow> set_node cs (length (nodes g)) f ?g1) = Inr g2"
    and r: "r = (g2, [length (nodes g)])"
    by (auto simp: merge_node_tx_def Let_def and_then_eq_Inr dest: checked_Inr)
  have "g2 = g\<lparr>nodes := nodes g @ [\<lparr>nlabels = [l], nprops = upd_of oc [k \<mapsto> VStr v]\<rparr>]\<rparr>"
  proof (cases oc)
    case None
    with s show ?thesis by simp
  next
    case (Some f)
    with s have "g2 = upd_node (length (nodes g)) f ?g1" by (simp add: set_node_Inr)
    then show ?thesis unfolding create_then_set using Some by simp
  qed
  then show ?thesis using True r by (simp add: merge_node_def Let_def)
next
  case False
  let ?ms = "match_nodes l k v g"
  from assms False obtain g1 where
    s: "(case om of None \<Rightarrow> Inr g | Some f \<Rightarrow> each_tx (\<lambda>i. set_node cs i f) ?ms g) = Inr g1"
    and r: "r = (g1, ?ms)"
    by (auto simp: merge_node_tx_def Let_def and_then_eq_Inr)
  have "g1 = fold (\<lambda>i. upd_node i (upd_of om)) ?ms g"
  proof (cases om)
    case None
    with s show ?thesis by (simp add: fold_upd_node_id)
  next
    case (Some f)
    with s have e: "each_tx (\<lambda>i. set_node cs i f) ?ms g = Inr g1" by simp
    have "g1 = fold (\<lambda>i. upd_node i f) ?ms g"
      by (rule each_tx_Inr[OF _ e]) (rule set_node_Inr)
    then show ?thesis using Some by simp
  qed
  then show ?thesis using False r by (simp add: merge_node_def Let_def)
qed


section \<open>The statements that commit\<close>

lemma employees_tx_Inr:
  assumes "employees_tx cs rows g = Inr g1"
  shows "employees_stmt rows g = Inr g1"
proof -
  define F where "F = (\<lambda>r. case empId r of
        None \<Rightarrow> (\<lambda>h. Inl MergeNullProperty)
      | Some k \<Rightarrow> merge_node_tx cs ''Employee'' ''empId'' k (Some (create_name r)) (Some (coalesce_name r)))"
  define U where "U = (\<lambda>r. merge_node ''Employee'' ''empId'' (the (empId r)) (create_name r) (coalesce_name r))"
  from assms obtain h t1 where
    c: "clause_tx F rows g = Inr (h, t1)"
    and s: "each_tx (\<lambda>(r, e). set_node cs e (emp_set r)) t1 h = Inr g1"
    by (auto simp: employees_tx_def F_def and_then_eq_Inr)
  have ne: "\<forall>r\<in>set rows. empId r \<noteq> None"
  proof
    fix r assume "r \<in> set rows"
    from clause_tx_rows[OF c this] obtain x y where "F r x = Inr y" by blast
    then show "empId r \<noteq> None" by (cases "empId r") (simp_all add: F_def)
  qed
  have "(h, t1) = clause U rows g"
  proof (rule clause_tx_Inr[OF _ c])
    fix a x r assume a: "a \<in> set rows" and f: "F a x = Inr r"
    from ne a obtain k where k: "empId a = Some k" by auto
    from f k have "merge_node_tx cs ''Employee'' ''empId'' k (Some (create_name a)) (Some (coalesce_name a)) x
        = Inr r" by (simp add: F_def)
    from merge_node_tx_Inr[OF this] show "r = U a x" by (simp add: U_def k)
  qed
  then have cl: "clause U rows g = (h, t1)" by simp
  have g1: "g1 = fold (\<lambda>(r, e). upd_node e (emp_set r)) t1 h"
    by (rule each_tx_Inr[OF _ s]) (auto dest: set_node_Inr)
  have "\<not> list_ex (\<lambda>r. empId r = None) rows" using ne by (simp add: list_ex_iff)
  then show ?thesis
    using cl g1 by (simp add: employees_stmt_def U_def)
qed

lemma link_tx_Inr:
  assumes "link_tx cs f lbl oc ty rows g = Inr r"
  shows "r = link_clauses f lbl (\<lambda>r v. upd_of (oc r v)) ty rows g"
proof -
  define t1 where "t1 = bind_rows (\<lambda>rv. match_emp (fst rv) g) (with_field f rows)"
  define F where "F = (\<lambda>rve :: (emp_record \<times> string) \<times> nat.
      merge_node_tx cs lbl ''name'' (snd (fst rve)) (oc (fst (fst rve)) (snd (fst rve))) None)"
  define U where "U = (\<lambda>rve :: (emp_record \<times> string) \<times> nat.
      merge_node lbl ''name'' (snd (fst rve)) (upd_of (oc (fst (fst rve)) (snd (fst rve)))) id)"
  from assms obtain g1 t2 where
    c: "clause_tx F t1 g = Inr (g1, t2)"
    and r: "r = clause (\<lambda>rvet. merge_edge (snd (fst rvet)) ty [] (snd rvet)) t2 g1"
    by (auto simp: link_tx_def Let_def t1_def F_def and_then_eq_Inr)
  have "(g1, t2) = clause U t1 g"
  proof (rule clause_tx_Inr[OF _ c])
    fix a x y assume "F a x = Inr y"
    then show "y = U a x" unfolding F_def U_def by (auto dest: merge_node_tx_Inr)
  qed
  then have "clause U t1 g = (g1, t2)" by simp
  then show ?thesis
    unfolding r by (simp add: link_clauses_def Let_def t1_def U_def)
qed


lemma link_tx_fst:
  assumes "and_then (link_tx cs f lbl oc ty rows g) (\<lambda>(g1, t). Inr (k g1 t)) = Inr h"
  shows "h = (case link_clauses f lbl (\<lambda>r v. upd_of (oc r v)) ty rows g of (g1, t) \<Rightarrow> k g1 t)"
proof -
  from assms obtain r where r: "link_tx cs f lbl oc ty rows g = Inr r"
    and h: "(case r of (g1, t) \<Rightarrow> Inr (k g1 t)) = Inr h"
    by (auto simp: and_then_eq_Inr)
  from h show ?thesis unfolding link_tx_Inr[OF r, symmetric] by (cases r) simp
qed

lemma team_tx_Inr: "team_tx cs rows g = Inr g1 \<Longrightarrow> g1 = team_stmt rows g"
  unfolding team_tx_def team_stmt_def by (drule link_tx_fst) (simp add: fst_def)

lemma manager_tx_Inr: "manager_tx cs rows g = Inr g1 \<Longrightarrow> g1 = manager_stmt rows g"
  unfolding manager_tx_def manager_stmt_def by (drule link_tx_fst) (simp add: fst_def)

lemma lead_tx_Inr: "lead_tx cs rows g = Inr g1 \<Longrightarrow> g1 = lead_stmt rows g"
  unfolding lead_tx_def lead_stmt_def by (drule link_tx_fst) (simp add: fst_def)

lemma projects_tx_Inr: "projects_tx cs rows g = Inr g1 \<Longrightarrow> g1 = projects_stmt rows g"
  unfolding projects_tx_def projects_stmt_def by (drule link_tx_fst) simp

lemma skill_foreach_tx_Inr:
  assumes "skill_foreach_tx cs f kind re g = Inr g1"
  shows "g1 = skill_foreach f kind re g"
proof (cases "f (fst re)")
  case None
  with assms show ?thesis by (simp add: skill_foreach_tx_def skill_foreach_def)
next
  case (Some s)
  with assms obtain h t where
    c: "clause_tx (\<lambda>u. merge_node_tx cs ''Skill'' ''name'' s None None) [()] g = Inr (h, t)"
    and r: "g1 = fst (clause (\<lambda>us. merge_edge (snd re) ''HAS_SKILL'' [(''type'', VStr kind)] (snd us)) t h)"
    by (auto simp: skill_foreach_tx_def and_then_eq_Inr)
  have "(h, t) = clause (\<lambda>u. merge_node ''Skill'' ''name'' s id id) [()] g"
  proof (rule clause_tx_Inr[OF _ c])
    fix a :: unit and x y
    assume "merge_node_tx cs ''Skill'' ''name'' s None None x = Inr y"
    from merge_node_tx_Inr[OF this] show "y = merge_node ''Skill'' ''name'' s id id x" by simp
  qed
  then have "clause (\<lambda>u. merge_node ''Skill'' ''name'' s id id) [()] g = (h, t)" by simp
  then show ?thesis
    unfolding r using Some by (simp add: skill_foreach_def del: clause.simps)
qed

lemma skills_tx_Inr:
  assumes "skills_tx cs rows g = Inr g1"
  shows "g1 = skills_stmt rows g"
proof -
  define t1 where "t1 = bind_rows (\<lambda>r. match_emp r g) rows"
  from assms obtain h where
    a: "each_tx (skill_foreach_tx cs primarySkill ''primary'') t1 g = Inr h"
    and b: "each_tx (skill_foreach_tx cs secondarySkill ''secondary'') t1 h = Inr g1"
    by (auto simp: skills_tx_def Let_def t1_def and_then_eq_Inr)
  have h: "h = fold (skill_foreach primarySkill ''primary'') t1 g"
    by (rule each_tx_Inr[OF _ a]) (rule skill_foreach_tx_Inr)
  have "g1 = fold (skill_foreach secondarySkill ''secondary'') t1 h"
    by (rule each_tx_Inr[OF _ b]) (rule skill_foreach_tx_Inr)
  then show ?thesis
    unfolding h by (simp add: skills_stmt_def Let_def t1_def)
qed

text \<open>What a statement that commits has written.\<close>

lemma statement_Inr:
  assumes "statement cs rows s g = Inr g1"
  shows "(case s of
            Setup i \<Rightarrow> g1 = g
          | Employees \<Rightarrow> employees_stmt rows g = Inr g1
          | TeamLink \<Rightarrow> g1 = team_stmt rows g
          | ManagerEdges \<Rightarrow> g1 = manager_stmt rows g
          | LeadEdges \<Rightarrow> g1 = lead_stmt rows g
          | Skills \<Rightarrow> g1 = skills_stmt rows g
          | Projects \<Rightarrow> g1 = projects_stmt rows g)"
  using assms
  by (cases s)
     (simp_all add: statement_def employees_tx_Inr team_tx_Inr manager_tx_Inr lead_tx_Inr
        skills_tx_Inr projects_tx_Inr)

lemma run_all_left_Cons:
  "snd (snd (run_all ex (s # ss) g)) =
     (case ex s g of Inl e \<Rightarrow> g | Inr g1 \<Rightarrow> snd (snd (run_all ex ss g1)))"
  by (simp split: sum.splits prod.splits)

lemma run_all_rel:
  assumes step: "\<And>s h h'. s \<in> set ss \<Longrightarrow> ex s h = Inr h' \<Longrightarrow> R h h'"
      and refl: "\<And>h. R h h"
      and trans: "\<And>a b c. R a b \<Longrightarrow> R b c \<Longrightarrow> R a c"
  shows "R g (snd (snd (run_all ex ss g)))"
  using step
proof (induction ss arbitrary: g)
  case Nil
  then show ?case by (simp add: refl)
next
  case (Cons s ss)
  show ?case
  proof (cases "ex s g")
    case (Inl e)
    then show ?thesis unfolding run_all_left_Cons by (simp add: refl)
  next
    case (Inr g1)
    have a: "R g g1" by (rule Cons.prems[OF _ Inr]) simp
    have b: "R g1 (snd (snd (run_all ex ss g1)))"
      by (rule Cons.IH) (rule Cons.prems, simp_all)
    have "snd (snd (run_all ex (s # ss) g)) = snd (snd (run_all ex ss g1))"
      unfolding run_all_left_Cons using Inr by simp
    then show ?thesis using trans[OF a b] by simp
  qed
qed



lemma result_left:
  "graph_left (result (upsert setup_fails g rows)) =
     (if rows = [] then g
      else snd (snd (run_all (statement (in_force setup_fails g) rows)
              [Employees, TeamLink, ManagerEdges, LeadEdges, Skills, Projects] g)))"
  by (simp add: upsert_def graph_left_def split: prod.splits option.splits)


section \<open>No constraint in force\<close>














section \<open>The properties of an employee after the employee statement\<close>

lemma employees_stmt_node:
  assumes st: "employees_stmt rows g = Inr g1"
      and i: "i \<in> set (match_nodes ''Employee'' ''empId'' k g)"
  shows "nprops (nodes g1 ! i) =
           fold emp_set (rows_for k rows) (fold coalesce_name (rows_for k rows) (nprops (nodes g ! i)))"
proof -
  from i have il: "i < length (nodes g)" and key: "emp_key (nodes g ! i) = Some k"
    by (simp_all add: match_nodes_find_idx set_find_idx node_matches_emp)
  from employees_stmt_closed[OF employees_stmt_Inr[OF st], of g] obtain nk where
    "employees_stmt rows g =
       Inr \<lparr>nodes = map (emp_update rows) (nodes g @ map fresh_emp nk), edges = edges g\<rparr>"
    by blast
  with st have n: "nodes g1 = map (emp_update rows) (nodes g @ map fresh_emp nk)" by auto
  have "nodes g1 ! i = emp_update rows (nodes g ! i)"
    unfolding n using il by (simp add: nth_append)
  then show ?thesis using key by (simp add: emp_update_def)
qed

lemma emp_set_gender:
  "emp_set r p ''gender'' =
     (case extra r ''gender'' of Some x \<Rightarrow> Some (VStr x) | None \<Rightarrow> map_option VStr (gender r))"
  by (simp add: emp_set_unfold map_add_def split: option.splits)

lemma emp_set_designation:
  "emp_set r p ''designation'' =
     (case extra r ''designation'' of Some x \<Rightarrow> Some (VStr x) | None \<Rightarrow> map_option VStr (designation r))"
  by (simp add: emp_set_unfold map_add_def split: option.splits)

lemma emp_set_doj:
  "emp_set r p ''doj'' =
     (case extra r ''doj'' of
        Some x \<Rightarrow> Some (VStr x)
      | None \<Rightarrow> (case doj r of None \<Rightarrow> p ''doj'' | Some d \<Rightarrow> Some (VDate d)))"
  by (simp add: emp_set_unfold map_add_def split: option.splits)

lemma emp_set_name:
  "emp_set r p ''name'' = (case extra r ''name'' of Some x \<Rightarrow> Some (VStr x) | None \<Rightarrow> p ''name'')"
  by (simp add: emp_set_unfold map_add_def split: option.splits)

lemma fold_snoc: "fold f (xs @ [x]) p = f x (fold f xs p)"
  by simp

lemma coalesce_name_other: "x \<noteq> ''name'' \<Longrightarrow> coalesce_name r p x = p x"
  by (simp add: coalesce_name_def split: option.splits)

lemma fold_coalesce_name_other: "x \<noteq> ''name'' \<Longrightarrow> fold coalesce_name rs p x = p x"
  by (induction rs arbitrary: p) (simp_all add: coalesce_name_other)

lemma fold_emp_set_doj_kept:
  "\<forall>r\<in>set rs. doj r = None \<and> extra r ''doj'' = None \<Longrightarrow> fold emp_set rs p ''doj'' = p ''doj''"
  by (induction rs arbitrary: p) (simp_all add: emp_set_doj)

lemma fold_emp_set_name_kept:
  "\<forall>r\<in>set rs. extra r ''name'' = None \<Longrightarrow> fold emp_set rs p ''name'' = p ''name''"
  by (induction rs arbitrary: p) (simp_all add: emp_set_name)

lemma fold_coalesce_name_kept:
  "\<forall>r\<in>set rs. name r = None \<Longrightarrow> fold coalesce_name rs p = p"
  by (induction rs arbitrary: p) (simp_all add: coalesce_name_def)

lemma fold_coalesce_name_some:
  "p ''name'' \<noteq> None \<Longrightarrow> fold coalesce_name rs p ''name'' \<noteq> None"
  by (induction rs arbitrary: p) (simp_all add: coalesce_name_def split: option.splits)

lemma fold_emp_set_name_some:
  "p ''name'' \<noteq> None \<Longrightarrow> fold emp_set rs p ''name'' \<noteq> None"
  by (induction rs arbitrary: p) (simp_all add: emp_set_name split: option.splits)

lemma employees_tx_node:
  assumes "employees_tx cs rows g = Inr g1"
      and "i \<in> set (match_nodes ''Employee'' ''empId'' k g)"
  shows "nprops (nodes g1 ! i) =
           fold emp_set (rows_for k rows) (fold coalesce_name (rows_for k rows) (nprops (nodes g ! i)))"
  by (rule employees_stmt_node[OF employees_tx_Inr[OF assms(1)] assms(2)])

section \<open>The keys of \<open>extra\<close>\<close>

text \<open>
  A key of \<open>extra\<close> is a header in snake case, which has no capital letter: the builder
  derives no key \<^verbatim>\<open>empId\<close>.
\<close>

lemma lower_char_not_capital_I: "lower_char c \<noteq> CHR ''I''"
proof -
  have n: "of_char c < (256 :: nat)" by simp
  show ?thesis
  proof (cases "(65 \<le> (of_char c :: nat) \<and> (of_char c :: nat) \<le> 90) \<or>
      (192 \<le> (of_char c :: nat) \<and> (of_char c :: nat) \<le> 222 \<and> (of_char c :: nat) \<noteq> 215)")
    case True
    then have "lower_char c = char_of ((of_char c :: nat) + 32)"
      unfolding lower_char_def Let_def by (simp only: if_True)
    moreover have "(of_char (char_of ((of_char c :: nat) + 32)) :: nat) = (of_char c + 32) mod 256"
      by simp
    moreover have "((of_char c :: nat) + 32) mod 256 \<noteq> 73" using True n by auto
    moreover have "(of_char (CHR ''I'') :: nat) = 73" by simp
    ultimately have "(of_char (lower_char c) :: nat) \<noteq> of_char (CHR ''I'')" by simp
    then show ?thesis by auto
  next
    case False
    then have l: "lower_char c = c" unfolding lower_char_def Let_def by (simp only: if_False)
    from False have "(of_char c :: nat) \<noteq> 73" by auto
    moreover have "(of_char (CHR ''I'') :: nat) = 73" by simp
    ultimately have "(of_char c :: nat) \<noteq> of_char (CHR ''I'')" by simp
    then have "c \<noteq> CHR ''I''" by auto
    with l show ?thesis by simp
  qed
qed

lemma snake_not_empId: "snake c \<noteq> ''empId''"
proof
  assume "snake c = ''empId''"
  then have "CHR ''I'' \<in> set (snake c)" by simp
  then obtain x where "lower_char x = CHR ''I''"
    by (auto simp: snake_def Let_def lower_def)
  then show False by (simp add: lower_char_not_capital_I)
qed

lemma cell_step_no_empId_key:
  assumes "cell_step tdt cv rec = Inr rec'" and "extra rec ''empId'' = None"
  shows "extra rec' ''empId'' = None"
proof (cases "inv_map (norm_col (fst cv))")
  case None
  with assms show ?thesis
    using snake_not_empId[of "fst cv"]
    by (cases "norm_str (snd cv)") (auto simp: cell_step_def Let_def)
next
  case (Some key)
  with assms(1) have "extra rec' = extra rec"
    by (auto simp: cell_step_def Let_def split: if_splits sum.splits)
  with assms(2) show ?thesis by simp
qed

lemma build_row_no_empId_key:
  "build_row tdt items rec = Inr rec' \<Longrightarrow> extra rec ''empId'' = None \<Longrightarrow> extra rec' ''empId'' = None"
proof (induction items arbitrary: rec)
  case Nil
  then show ?case by simp
next
  case (Cons cv items)
  from Cons.prems(1) obtain r1 where a: "cell_step tdt cv rec = Inr r1"
    and b: "build_row tdt items r1 = Inr rec'"
    by (auto split: sum.splits)
  from Cons.IH[OF b cell_step_no_empId_key[OF a Cons.prems(2)]] show ?case .
qed

lemma build_loop_no_empId_key:
  "build_loop tdt cols rows acc = Inr recs \<Longrightarrow> \<forall>r\<in>set acc. extra r ''empId'' = None \<Longrightarrow>
   \<forall>r\<in>set recs. extra r ''empId'' = None"
proof (induction rows arbitrary: acc)
  case Nil
  then show ?case by simp
next
  case (Cons row rows)
  from Cons.prems(1) obtain rec where a: "build_row tdt (zip cols row) rec_init = Inr rec"
    and b: "build_loop tdt cols rows
              (if truthy (empId rec) \<and> truthy (name rec) then acc @ [rec] else acc) = Inr recs"
    by (auto split: sum.splits)
  have "extra rec ''empId'' = None"
    by (rule build_row_no_empId_key[OF a]) (simp add: rec_init_def)
  with Cons.prems(2) have
    "\<forall>r\<in>set (if truthy (empId rec) \<and> truthy (name rec) then acc @ [rec] else acc). extra r ''empId'' = None"
    by simp
  from Cons.IH[OF b this] show ?case .
qed

lemma build_records_no_empId_key:
  "build_records tdt df = Inr recs \<Longrightarrow> \<forall>r\<in>set recs. extra r ''empId'' = None"
  unfolding build_records_def by (erule build_loop_no_empId_key) simp

section \<open>Applying a batch twice with \<^verbatim>\<open>upsert\<close>\<close>

text \<open>
  With the constraint on \<^verbatim>\<open>empId\<close> in force, the stub of the sheet below cannot be created:
  its id is the id of the second row's employee. The manager statement raises, and the
  graph stays as the team statement has left it.
\<close>

lemma clash_raises_when_constrained:
  "(case build_records no_parse clash_sheet of
      Inl e \<Rightarrow> False
    | Inr rows \<Rightarrow>
       (case result (upsert {} empty_graph rows) of
          Inl (e, g1) \<Rightarrow> e = ConstraintViolation \<and> length (nodes g1) = 2 \<and> length (edges g1) = 0 \<and>
             ran (upsert {} empty_graph rows) = map Setup [0..<5] @ [Employees, TeamLink, ManagerEdges]
        | Inr g1 \<Rightarrow> False))"
  by code_simp




section \<open>Relationships are kept\<close>

lemma link_clauses_grows:
  assumes "\<And>r v p. on_create r v p ''name'' = p ''name''"
  shows "grows g (fst (link_clauses f lbl on_create ty rows g))"
proof -
  obtain g2 t3 where lc: "link_clauses f lbl on_create ty rows g = (g2, t3)"
    by (cases "link_clauses f lbl on_create ty rows g")
  from link_clauses_result[OF assms lc] obtain news newe where
    "nodes g2 = nodes g @ news" and "edges g2 = edges g @ newe"
    by blast
  then have "grows g g2"
    by (simp add: grows_def nth_append)
  with lc show ?thesis by simp
qed

lemma team_stmt_grows: "grows g (team_stmt rows g)"
  unfolding team_stmt_def by (rule link_clauses_grows) simp

lemma manager_stmt_grows: "grows g (manager_stmt rows g)"
  unfolding manager_stmt_def by (rule link_clauses_grows) simp

lemma lead_stmt_grows: "grows g (lead_stmt rows g)"
  unfolding lead_stmt_def by (rule link_clauses_grows) simp

lemma skills_stmt_grows: "grows g (skills_stmt rows g)"
  using skills_stmt_sat[of rows g] by (simp add: inert_def)

lemma projects_stmt_grows: "grows g (projects_stmt rows g)"
  using projects_stmt_sat[of rows g] by (simp add: inert_def)

lemma employees_stmt_edges:
  assumes "employees_stmt rows g = Inr g1"
  shows "edges g1 = edges g"
proof -
  from employees_stmt_closed[OF employees_stmt_Inr[OF assms], of g] obtain nk where
    "employees_stmt rows g =
       Inr \<lparr>nodes = map (emp_update rows) (nodes g @ map fresh_emp nk), edges = edges g\<rparr>"
    by blast
  with assms show ?thesis by auto
qed

lemma keeps_edges_refl: "keeps_edges g g"
  by (simp add: keeps_edges_def)

lemma keeps_edges_trans:
  assumes "keeps_edges a b" and "keeps_edges b c"
  shows "keeps_edges a c"
  unfolding keeps_edges_def
proof (intro conjI allI impI)
  show "length (edges a) \<le> length (edges c)"
    using assms by (simp add: keeps_edges_def)
  fix i assume i: "i < length (edges a)"
  then have "edge_kept (edges a ! i) (edges b ! i)" using assms(1) by (simp add: keeps_edges_def)
  moreover have "edge_kept (edges b ! i) (edges c ! i)"
    using assms i by (simp add: keeps_edges_def)
  ultimately show "edge_kept (edges a ! i) (edges c ! i)" by (rule edge_kept_trans)
qed

lemma grows_keeps_edges: "grows g g' \<Longrightarrow> keeps_edges g g'"
  by (simp add: grows_def keeps_edges_def)

lemma statement_keeps_edges:
  assumes "statement cs rows s g = Inr g'"
  shows "keeps_edges g g'"
proof (cases s)
  case (Setup i)
  with statement_Inr[OF assms] show ?thesis by (simp add: keeps_edges_refl)
next
  case Employees
  with statement_Inr[OF assms] have "edges g' = edges g" by (simp add: employees_stmt_edges)
  then show ?thesis by (simp add: keeps_edges_def)
next
  case TeamLink
  with statement_Inr[OF assms] show ?thesis by (simp add: grows_keeps_edges team_stmt_grows)
next
  case ManagerEdges
  with statement_Inr[OF assms] show ?thesis by (simp add: grows_keeps_edges manager_stmt_grows)
next
  case LeadEdges
  with statement_Inr[OF assms] show ?thesis by (simp add: grows_keeps_edges lead_stmt_grows)
next
  case Skills
  with statement_Inr[OF assms] show ?thesis by (simp add: grows_keeps_edges skills_stmt_grows)
next
  case Projects
  with statement_Inr[OF assms] show ?thesis by (simp add: grows_keeps_edges projects_stmt_grows)
qed

lemma upsert_keeps_edges: "keeps_edges g (graph_left (result (upsert setup_fails g rows)))"
proof (cases "rows = []")
  case True
  then show ?thesis by (simp add: result_left keeps_edges_refl)
next
  case False
  have "keeps_edges g (snd (snd (run_all (statement (in_force setup_fails g) rows)
          [Employees, TeamLink, ManagerEdges, LeadEdges, Skills, Projects] g)))"
    by (rule run_all_rel) (erule statement_keeps_edges, rule keeps_edges_refl, erule (1) keeps_edges_trans)
  with False show ?thesis by (simp add: result_left)
qed

lemma since_kept:
  assumes "keeps_edges g g'" and "i < length (edges g)" and "eprops (edges g ! i) ''since'' = Some d"
  shows "i < length (edges g') \<and> esrc (edges g' ! i) = esrc (edges g ! i) \<and>
         edst (edges g' ! i) = edst (edges g ! i) \<and> etype (edges g' ! i) = etype (edges g ! i) \<and>
         eprops (edges g' ! i) ''since'' = Some d"
proof -
  from assms(1,2) have "edge_kept (edges g ! i) (edges g' ! i)" by (simp add: keeps_edges_def)
  with assms show ?thesis by (simp add: edge_kept_def keeps_edges_def)
qed

text \<open>
  Claim C7. A relationship whose \<^verbatim>\<open>since\<close> is set keeps its place, its ends, its type and
  that very \<^verbatim>\<open>since\<close>, whatever batch the project statement is applied to and whatever
  batch \<^verbatim>\<open>upsert\<close> applies, in the graph that \<^verbatim>\<open>upsert\<close> leaves when it returns and when it
  raises: in particular the \<^verbatim>\<open>WORKS_ON\<close> relationship of an employee and a project, when a
  later batch has another date of joining for that employee.
\<close>

theorem since_set_once:
  assumes "i < length (edges g)" and "eprops (edges g ! i) ''since'' = Some d"
  shows "(\<forall>g'. projects_tx cs rows g = Inr g' \<or> g' = graph_left (result (upsert setup_fails g rows)) \<longrightarrow>
            i < length (edges g') \<and>
            esrc (edges g' ! i) = esrc (edges g ! i) \<and>
            edst (edges g' ! i) = edst (edges g ! i) \<and>
            etype (edges g' ! i) = etype (edges g ! i) \<and>
            eprops (edges g' ! i) ''since'' = Some d)"
proof (intro allI impI)
  fix g'
  assume "projects_tx cs rows g = Inr g' \<or> g' = graph_left (result (upsert setup_fails g rows))"
  then have "keeps_edges g g'"
  proof
    assume "projects_tx cs rows g = Inr g'"
    then have "g' = projects_stmt rows g" by (rule projects_tx_Inr)
    then show ?thesis by (simp add: grows_keeps_edges projects_stmt_grows)
  next
    assume "g' = graph_left (result (upsert setup_fails g rows))"
    then show ?thesis by (simp add: upsert_keeps_edges)
  qed
  then show "i < length (edges g') \<and>
            esrc (edges g' ! i) = esrc (edges g ! i) \<and>
            edst (edges g' ! i) = edst (edges g ! i) \<and>
            etype (edges g' ! i) = etype (edges g ! i) \<and>
            eprops (edges g' ! i) ''since'' = Some d"
    using assms by (rule since_kept)
qed

theorem since_set_once_witness:
  "\<exists>g1 g2. projects_tx (in_force {} stored_graph) later_rows stored_graph = Inr g1 \<and>
     result (upsert {} stored_graph later_rows) = Inr g2 \<and>
     length (edges g1) = 1 \<and> eprops (edges g1 ! 0) ''since'' = Some (VDate ''2020-01-01'') \<and>
     length (edges g2) = 1 \<and> eprops (edges g2 ! 0) ''since'' = Some (VDate ''2020-01-01'') \<and>
     nprops (nodes g2 ! 0) ''doj'' = Some (VDate ''2024-05-05'')"
proof -
  have a: "0 < length (edges stored_graph)" by (simp add: stored_graph_def)
  have b: "eprops (edges stored_graph ! 0) ''since'' = Some (VDate ''2020-01-01'')"
    by (simp add: stored_graph_def)
  have "(case projects_tx (in_force {} stored_graph) later_rows stored_graph of
           Inl e \<Rightarrow> False | Inr g1 \<Rightarrow> length (edges g1) = 1)"
    by code_simp
  then obtain g1 where g1: "projects_tx (in_force {} stored_graph) later_rows stored_graph = Inr g1"
    and n1: "length (edges g1) = 1"
    by (auto split: sum.splits)
  have "(case result (upsert {} stored_graph later_rows) of
           Inl e \<Rightarrow> False
         | Inr g2 \<Rightarrow> length (edges g2) = 1 \<and> nprops (nodes g2 ! 0) ''doj'' = Some (VDate ''2024-05-05''))"
    by code_simp
  then obtain g2 where g2: "result (upsert {} stored_graph later_rows) = Inr g2"
    and n2: "length (edges g2) = 1" "nprops (nodes g2 ! 0) ''doj'' = Some (VDate ''2024-05-05'')"
    by (auto split: sum.splits)
  note W = since_set_once[OF a b, of "in_force {} stored_graph" later_rows "{}"]
  from W[THEN spec, of g1] g1
  have s1: "eprops (edges g1 ! 0) ''since'' = Some (VDate ''2020-01-01'')" by simp
  from W[THEN spec, of g2] g2
  have s2: "eprops (edges g2 ! 0) ''since'' = Some (VDate ''2020-01-01'')"
    by (simp add: graph_left_def)
  from g1 g2 n1 s1 n2 s2 show ?thesis by blast
qed

section \<open>Managers and leads\<close>









text \<open>
  Claim C5, as stated, fails for the date of joining: the statement sets
  \<^verbatim>\<open>e.doj = CASE WHEN r.doj IS NULL THEN e.doj ELSE date(r.doj) END\<close>, so a record without a
  date of joining leaves the stored one. The sheet here has no date column; the stored
  employee keeps the date 2020-01-01, while the gender and the designation, absent from
  the sheet as well, are removed.
\<close>

theorem null_doj_keeps_stored:
  "(case build_records no_parse undated_sheet of
      Inl e \<Rightarrow> False
    | Inr rows \<Rightarrow>
       (case employees_tx (in_force {} stored_graph) rows stored_graph of
          Inl e \<Rightarrow> False
        | Inr g1 \<Rightarrow>
            map doj rows = [None] \<and>
            nprops (nodes stored_graph ! 0) ''doj'' = Some (VDate ''2020-01-01'') \<and>
            nprops (nodes g1 ! 0) ''doj'' = Some (VDate ''2020-01-01'') \<and>
            nprops (nodes g1 ! 0) ''gender'' = None \<and>
            nprops (nodes g1 ! 0) ''designation'' = None))"
  by code_simp

text \<open>
  Claim C5, amended. Let the employee statement commit, let \<open>i\<close> be a node that
  \<^verbatim>\<open>(:Employee {empId: k})\<close> matches before it, and let \<open>r\<close> be the last record of the batch
  with the id \<open>k\<close>. Afterwards the node's gender and designation are those of \<open>r\<close>, a
  missing one removing the property, unless \<open>extra\<close> of \<open>r\<close> has that key, whose value then
  stands. The date of joining is that of \<open>r\<close> when \<open>r\<close> has one (and \<open>extra\<close> has no key
  \<^verbatim>\<open>doj\<close>); it is the stored one when no record with the id \<open>k\<close> has a date of joining or
  such a key.
\<close>

theorem employee_scalars_overwritten:
  assumes "employees_tx cs rows g = Inr g1"
      and "i \<in> set (match_nodes ''Employee'' ''empId'' k g)"
      and "rows_for k rows = pre @ [r]"
  shows "nprops (nodes g1 ! i) ''gender'' =
           (case extra r ''gender'' of Some x \<Rightarrow> Some (VStr x) | None \<Rightarrow> map_option VStr (gender r)) \<and>
         nprops (nodes g1 ! i) ''designation'' =
           (case extra r ''designation'' of Some x \<Rightarrow> Some (VStr x)
            | None \<Rightarrow> map_option VStr (designation r)) \<and>
         (extra r ''doj'' = None \<longrightarrow>
            (\<forall>d. doj r = Some d \<longrightarrow> nprops (nodes g1 ! i) ''doj'' = Some (VDate d))) \<and>
         ((\<forall>r'\<in>set (pre @ [r]). doj r' = None \<and> extra r' ''doj'' = None) \<longrightarrow>
            nprops (nodes g1 ! i) ''doj'' = nprops (nodes g ! i) ''doj'')"
proof -
  define q where "q = fold emp_set pre (fold coalesce_name (pre @ [r]) (nprops (nodes g ! i)))"
  have p: "nprops (nodes g1 ! i) = emp_set r q"
    unfolding employees_tx_node[OF assms(1,2)] assms(3) q_def by (rule fold_snoc)
  have a: "nprops (nodes g1 ! i) ''gender'' =
           (case extra r ''gender'' of Some x \<Rightarrow> Some (VStr x) | None \<Rightarrow> map_option VStr (gender r))"
    unfolding p by (rule emp_set_gender)
  have b: "nprops (nodes g1 ! i) ''designation'' =
           (case extra r ''designation'' of Some x \<Rightarrow> Some (VStr x)
            | None \<Rightarrow> map_option VStr (designation r))"
    unfolding p by (rule emp_set_designation)
  have c: "extra r ''doj'' = None \<longrightarrow>
            (\<forall>d. doj r = Some d \<longrightarrow> nprops (nodes g1 ! i) ''doj'' = Some (VDate d))"
    unfolding p by (simp add: emp_set_doj)
  have d: "(\<forall>r'\<in>set (pre @ [r]). doj r' = None \<and> extra r' ''doj'' = None) \<longrightarrow>
            nprops (nodes g1 ! i) ''doj'' = nprops (nodes g ! i) ''doj''"
  proof
    assume h: "\<forall>r'\<in>set (pre @ [r]). doj r' = None \<and> extra r' ''doj'' = None"
    have "nprops (nodes g1 ! i) ''doj'' =
            fold emp_set (pre @ [r]) (fold coalesce_name (pre @ [r]) (nprops (nodes g ! i))) ''doj''"
      unfolding employees_tx_node[OF assms(1,2)] assms(3) by (rule refl)
    also have "\<dots> = fold coalesce_name (pre @ [r]) (nprops (nodes g ! i)) ''doj''"
      by (rule fold_emp_set_doj_kept[OF h])
    also have "\<dots> = nprops (nodes g ! i) ''doj''"
      by (rule fold_coalesce_name_other) simp
    finally show "nprops (nodes g1 ! i) ''doj'' = nprops (nodes g ! i) ''doj''" .
  qed
  from a b c d show ?thesis by (intro conjI)
qed

theorem employee_scalars_overwritten_witness:
  "\<exists>g1. employees_tx (in_force {} stored_graph) later_rows stored_graph = Inr g1 \<and>
        nprops (nodes stored_graph ! 0) ''gender'' = Some (VStr ''F'') \<and>
        nprops (nodes g1 ! 0) ''gender'' = None \<and>
        nprops (nodes g1 ! 0) ''designation'' = None \<and>
        nprops (nodes g1 ! 0) ''doj'' = Some (VDate ''2024-05-05'')"
proof -
  have "(case employees_tx (in_force {} stored_graph) later_rows stored_graph of
           Inl e \<Rightarrow> False | Inr g1 \<Rightarrow> True)"
    by code_simp
  then obtain g1 where
    s: "employees_tx (in_force {} stored_graph) later_rows stored_graph = Inr g1"
    by (auto split: sum.splits)
  have m: "0 \<in> set (match_nodes ''Employee'' ''empId'' ''E1'' stored_graph)"
    by (simp add: match_nodes_def stored_graph_def node_matches_def)
  have f: "rows_for ''E1'' later_rows = [] @ [hd later_rows]"
    by (simp add: rows_for_def later_rows_def rec_init_def)
  note W = employee_scalars_overwritten[OF s m f]
  have g: "nprops (nodes g1 ! 0) ''gender'' = None"
    using W[THEN conjunct1] by (simp add: later_rows_def rec_init_def)
  have d: "nprops (nodes g1 ! 0) ''designation'' = None"
    using W[THEN conjunct2, THEN conjunct1] by (simp add: later_rows_def rec_init_def)
  have j: "nprops (nodes g1 ! 0) ''doj'' = Some (VDate ''2024-05-05'')"
    using W[THEN conjunct2, THEN conjunct2, THEN conjunct1] by (simp add: later_rows_def rec_init_def)
  have o: "nprops (nodes stored_graph ! 0) ''gender'' = Some (VStr ''F'')"
    by (simp add: stored_graph_def)
  from s o g d j show ?thesis by (intro exI[of _ g1] conjI)
qed

text \<open>
  Claim C6, as stated, fails when \<open>extra\<close> has the key of the property: \<^verbatim>\<open>e += r.extra\<close> is
  the last item of the \<^verbatim>\<open>SET\<close> clause. A record without a name and with the designation
  \<^verbatim>\<open>Lead\<close>, whose \<open>extra\<close> has \<^verbatim>\<open>name\<close> and \<^verbatim>\<open>designation\<close>, changes the stored name from Alice
  to Zed and leaves the designation \<^verbatim>\<open>Boss\<close>. A sheet yields such an \<open>extra\<close>: with the column
  \<^verbatim>\<open>Designation\<close> and a passthrough column \<^verbatim>\<open>designation\<close> the record has the designation
  \<^verbatim>\<open>Lead\<close>, and the stored designation becomes \<^verbatim>\<open>Boss\<close>.
\<close>

theorem extra_shadows_record:
  "(case employees_tx (in_force {} stored_graph) shadow_rows stored_graph of
      Inl e \<Rightarrow> False
    | Inr g1 \<Rightarrow>
        map name shadow_rows = [None] \<and> map designation shadow_rows = [Some ''Lead''] \<and>
        nprops (nodes stored_graph ! 0) ''name'' = Some (VStr ''Alice'') \<and>
        nprops (nodes g1 ! 0) ''name'' = Some (VStr ''Zed'') \<and>
        nprops (nodes g1 ! 0) ''designation'' = Some (VStr ''Boss'')) \<and>
   (case build_records no_parse shadow_sheet of
      Inl e \<Rightarrow> False
    | Inr rows \<Rightarrow>
       (case employees_tx (in_force {} stored_graph) rows stored_graph of
          Inl e \<Rightarrow> False
        | Inr g1 \<Rightarrow>
            map designation rows = [Some ''Lead''] \<and>
            nprops (nodes g1 ! 0) ''designation'' = Some (VStr ''Boss'')))"
  by code_simp

text \<open>
  Claim C6, amended. Let the employee statement commit, let \<open>i\<close> be a node that
  \<^verbatim>\<open>(:Employee {empId: k})\<close> matches before it, and let \<open>r\<close> be the last record of the batch
  with the id \<open>k\<close>. When no record with the id \<open>k\<close> has a name or the key \<^verbatim>\<open>name\<close> in its
  \<open>extra\<close>, the stored name is left as it was; a stored name never becomes \<^verbatim>\<open>null\<close>; and
  when \<open>r\<close> has a designation and its \<open>extra\<close> has no key \<^verbatim>\<open>designation\<close>, the stored
  designation is that of \<open>r\<close>.
\<close>

theorem name_coalesced:
  assumes "employees_tx cs rows g = Inr g1"
      and "i \<in> set (match_nodes ''Employee'' ''empId'' k g)"
      and "rows_for k rows = pre @ [r]"
  shows "((\<forall>r'\<in>set (pre @ [r]). name r' = None \<and> extra r' ''name'' = None) \<longrightarrow>
            nprops (nodes g1 ! i) ''name'' = nprops (nodes g ! i) ''name'') \<and>
         (nprops (nodes g ! i) ''name'' \<noteq> None \<longrightarrow> nprops (nodes g1 ! i) ''name'' \<noteq> None) \<and>
         (\<forall>d. designation r = Some d \<longrightarrow> extra r ''designation'' = None \<longrightarrow>
            nprops (nodes g1 ! i) ''designation'' = Some (VStr d))"
proof -
  let ?p = "nprops (nodes g ! i)"
  have n: "nprops (nodes g1 ! i) = fold emp_set (pre @ [r]) (fold coalesce_name (pre @ [r]) ?p)"
    unfolding employees_tx_node[OF assms(1,2)] assms(3) by (rule refl)
  have a: "(\<forall>r'\<in>set (pre @ [r]). name r' = None \<and> extra r' ''name'' = None) \<longrightarrow>
            nprops (nodes g1 ! i) ''name'' = ?p ''name''"
  proof
    assume h: "\<forall>r'\<in>set (pre @ [r]). name r' = None \<and> extra r' ''name'' = None"
    then have h1: "\<forall>r'\<in>set (pre @ [r]). name r' = None"
      and h2: "\<forall>r'\<in>set (pre @ [r]). extra r' ''name'' = None" by blast+
    show "nprops (nodes g1 ! i) ''name'' = ?p ''name''"
      unfolding n fold_emp_set_name_kept[OF h2] fold_coalesce_name_kept[OF h1] by (rule refl)
  qed
  have b: "?p ''name'' \<noteq> None \<longrightarrow> nprops (nodes g1 ! i) ''name'' \<noteq> None"
    unfolding n by (intro impI fold_emp_set_name_some fold_coalesce_name_some)
  define q where "q = fold emp_set pre (fold coalesce_name (pre @ [r]) ?p)"
  have p: "nprops (nodes g1 ! i) = emp_set r q"
    unfolding n q_def by (rule fold_snoc)
  have c: "\<forall>d. designation r = Some d \<longrightarrow> extra r ''designation'' = None \<longrightarrow>
            nprops (nodes g1 ! i) ''designation'' = Some (VStr d)"
    unfolding p by (simp add: emp_set_designation)
  from a b c show ?thesis by (intro conjI)
qed

theorem name_coalesced_witness:
  "\<exists>g1. employees_tx (in_force {} stored_graph) nameless_rows stored_graph = Inr g1 \<and>
        map name nameless_rows = [None] \<and>
        nprops (nodes g1 ! 0) ''name'' = Some (VStr ''Alice'') \<and>
        nprops (nodes stored_graph ! 0) ''designation'' = Some (VStr ''Engineer'') \<and>
        nprops (nodes g1 ! 0) ''designation'' = Some (VStr ''Lead'')"
proof -
  have "(case employees_tx (in_force {} stored_graph) nameless_rows stored_graph of
           Inl e \<Rightarrow> False | Inr g1 \<Rightarrow> True)"
    by code_simp
  then obtain g1 where
    s: "employees_tx (in_force {} stored_graph) nameless_rows stored_graph = Inr g1"
    by (auto split: sum.splits)
  have m: "0 \<in> set (match_nodes ''Employee'' ''empId'' ''E1'' stored_graph)"
    by (simp add: match_nodes_def stored_graph_def node_matches_def)
  have f: "rows_for ''E1'' nameless_rows = [] @ [hd nameless_rows]"
    by (simp add: rows_for_def nameless_rows_def rec_init_def)
  note W = name_coalesced[OF s m f]
  have a: "nprops (nodes g1 ! 0) ''name'' = Some (VStr ''Alice'')"
    using W[THEN conjunct1] by (simp add: nameless_rows_def rec_init_def stored_graph_def)
  have d: "nprops (nodes g1 ! 0) ''designation'' = Some (VStr ''Lead'')"
    using W[THEN conjunct2, THEN conjunct2] by (simp add: nameless_rows_def rec_init_def)
  have o: "nprops (nodes stored_graph ! 0) ''designation'' = Some (VStr ''Engineer'')"
    by (simp add: stored_graph_def)
  have e: "map name nameless_rows = [None]" by (simp add: nameless_rows_def rec_init_def)
  from s e a o d show ?thesis by (intro exI[of _ g1] conjI)
qed

end
